theory Spec2Isabelle
  imports Main "HOL-Library.Multiset"
begin

section \<open>The thread pool of dali/pipeline/util/thread_pool.h\<close>

text \<open>
  The pool is a class with six data members that several threads read and write. The
  embedding keeps the members as the fields of a record and turns every region of code
  that runs without interference (a critical section under \<open>mutex_\<close>, or a stretch
  that touches no shared member) into one atomic step. An execution is a list of such
  steps, taken by the owning thread and by the workers in any order.
\<close>

subsection \<open>Work items and threads\<close>

text \<open>
  \<open>typedef std::function<void(int)> Work\<close>: a callable on the worker's index. All the
  pool observes of a call is whether it returns, throws a \<open>std::runtime_error\<close>
  (which carries \<open>what()\<close>) or throws anything else.
\<close>

datatype outcome = Returns | Throws_runtime_error string | Throws_other

type_synonym Work = "int \<Rightarrow> outcome"

text \<open>
  The place of one element of \<open>threads_\<close> in \<open>ThreadMain\<close>:
  default-constructed and not yet started (line 39), in the first \<open>try\<close> block
  (106), at the loop condition (117), in \<open>condition_.wait\<close> (120), calling the
  popped item (138), at the final critical section (150), or returned.
\<close>

datatype thread =
    Not_started
  | Initializing
  | Loop_head
  | Waiting
  | Executing Work
  | Completing
  | Exited

text \<open>
  The place of the thread that owns the pool: in the constructor's loop at index \<open>i\<close>
  (46), between constructor and destructor, in the destructor after
  \<open>WaitForWork(false)\<close> (57), in the join loop at index \<open>k\<close> (62), or done.
\<close>

datatype owner =
    Constructing nat
  | Alive
  | Stopping
  | Joining nat
  | Destroyed

subsection \<open>The members\<close>

text \<open>
  \<open>threads\<close> ... \<open>tl_errors\<close> are the members of the class (the trailing underscore
  of the source dropped). \<open>mutex_\<close> and the two condition variables are not fields:
  a critical section is one step, and a wait on a predicate is a step that is blocked
  while the predicate is false. \<open>owner\<close> is the owning thread's place.
  The last three fields are history, written and never read by the steps:
  every item passed to \<open>DoWorkWithID\<close>, every pop with the worker that did it, and
  every finished call with the worker that made it.
\<close>

record pool =
  threads :: "thread list"
  work_queue :: "Work list"
  running :: bool
  work_complete :: bool
  active_threads :: int
  tl_errors :: "string list list"
  owner :: owner
  submitted :: "Work list"
  started :: "(nat \<times> Work) list"
  finished :: "(nat \<times> Work) list"

text \<open>
  What a step yields: it cannot be taken here (\<open>Blocked\<close>: the thread is somewhere
  else, or waits on a condition), it has undefined behaviour (\<open>Undefined\<close>: an index
  outside a vector, \<open>front()\<close> of an empty queue), it completes (\<open>Next\<close>), or it
  throws \<open>std::runtime_error\<close> to the caller and leaves the pool as given
  (\<open>Raised\<close>).
\<close>

datatype 'a result = Blocked | Undefined | Next 'a | Raised string 'a

subsection \<open>Construction\<close>

text \<open>
  The constructor up to its loop. The member initializer \<open>threads_(num_thread)\<close>
  runs first: the \<open>int\<close> becomes the \<open>size_t\<close> count of a \<open>std::vector\<close>, and
  a negative value becomes a count above \<open>max_size()\<close>, on which the vector's
  constructor throws (\<open>std::length_error\<close>, or \<open>std::bad_alloc\<close> from the
  allocator of an older library). \<open>DALI_ENFORCE\<close> (line 43) then rejects zero with
  its message. \<open>nvml::Init()\<close> and the two arguments that only reach
  \<open>cudaSetDevice\<close> and \<open>SetCPUAffinity\<close> touch no member.
\<close>

datatype failure = Bad_vector_size | Enforce_failed string

definition ThreadPool :: "int \<Rightarrow> int \<Rightarrow> bool \<Rightarrow> failure + pool" where
  "ThreadPool num_thread device_id set_affinity =
     (if num_thread < 0 then Inl Bad_vector_size
      else if \<not> num_thread > 0 then Inl (Enforce_failed ''Thread pool must have non-zero size'')
      else Inr \<lparr>threads = replicate (nat num_thread) Not_started,
                work_queue = [],
                running = True,
                work_complete = True,
                active_threads = 0,
                tl_errors = [],
                owner = Constructing 0,
                submitted = [], started = [], finished = []\<rparr>)"

text \<open>
  One round of the loop at 46: \<open>threads_[i] = std::thread(...)\<close> starts worker \<open>i\<close>.
  The creation of the thread is taken to succeed.
\<close>

definition ThreadPool_spawn :: "pool \<Rightarrow> pool result" where
  "ThreadPool_spawn s =
     (case owner s of
        Constructing i \<Rightarrow>
          if i < length (threads s)
          then Next (s\<lparr>threads := (threads s)[i := Initializing], owner := Constructing (i + 1)\<rparr>)
          else Blocked
      | _ \<Rightarrow> Blocked)"

text \<open>\<open>std::vector::resize\<close>: keeps the first \<open>n\<close> elements, pads with empty queues.\<close>

definition resize :: "nat \<Rightarrow> 'a list list \<Rightarrow> 'a list list" where
  "resize n xs = take n xs @ replicate (n - length xs) []"

text \<open>Line 50, after the loop: \<open>tl_errors_.resize(num_thread)\<close>; the constructor returns.\<close>

definition ThreadPool_resize :: "pool \<Rightarrow> pool result" where
  "ThreadPool_resize s =
     (case owner s of
        Constructing i \<Rightarrow>
          if i < length (threads s) then Blocked
          else Next (s\<lparr>tl_errors := resize (length (threads s)) (tl_errors s), owner := Alive\<rparr>)
      | _ \<Rightarrow> Blocked)"

subsection \<open>DoWorkWithID and WaitForWork\<close>

definition DoWorkWithID :: "Work \<Rightarrow> pool \<Rightarrow> pool result" where
  "DoWorkWithID work s =
     Next (s\<lparr>work_queue := work_queue s @ [work],
              work_complete := False,
              submitted := submitted s @ [work]\<rparr>)"

text \<open>\<open>std::to_string\<close> of an unsigned index: its decimal digits.\<close>

fun to_string :: "nat \<Rightarrow> string" where
  "to_string n =
     (if n < 10 then [''0123456789'' ! n]
      else to_string (n div 10) @ [''0123456789'' ! (n mod 10)])"

declare to_string.simps [simp del]

text \<open>
  The loop at 86, from index \<open>i\<close>: the first non-empty queue loses its front, which is
  thrown. The bound is \<open>threads_.size()\<close> and the index goes into \<open>tl_errors_\<close>.
\<close>

function WaitForWork_loop :: "nat \<Rightarrow> pool \<Rightarrow> pool result" where
  "WaitForWork_loop i s =
     (if i < length (threads s) then
        (if i < length (tl_errors s) then
           (case tl_errors s ! i of
              [] \<Rightarrow> WaitForWork_loop (i + 1) s
            | e # es \<Rightarrow>
                Raised (''Error in thread '' @ to_string i @ '': '' @ e)
                       (s\<lparr>tl_errors := (tl_errors s)[i := es]\<rparr>))
         else Undefined)
      else Next s)"
  by pat_completeness auto
termination
  by (relation "measure (\<lambda>(i, s). length (threads s) - i)") auto

declare WaitForWork_loop.simps [simp del]

text \<open>
  The wait of line 82 is a guard here: the call goes on at a moment when
  \<open>work_complete_\<close> holds. What wakes a blocked caller is the matter of the section
  on the condition variables below.
\<close>

definition WaitForWork :: "bool \<Rightarrow> pool \<Rightarrow> pool result" where
  "WaitForWork checkForErrors s =
     (if \<not> work_complete s then Blocked
      else if checkForErrors then WaitForWork_loop 0 s
      else Next s)"

subsection \<open>The destructor\<close>

text \<open>Line 55: the destructor's \<open>WaitForWork(false)\<close>.\<close>

definition destructor_wait :: "pool \<Rightarrow> pool result" where
  "destructor_wait s =
     (case WaitForWork False s of
        Next s' \<Rightarrow> Next (s'\<lparr>owner := Stopping\<rparr>)
      | r \<Rightarrow> r)"

text \<open>
  Lines 57 to 60: \<open>running_ = false\<close> under the lock, \<open>notify_all\<close>. This
  definition is the assignment; the workers that \<open>notify_all\<close> wakes are those of
  \<open>cv_step\<close> below.
\<close>

definition destructor_stop :: "pool \<Rightarrow> pool result" where
  "destructor_stop s = Next (s\<lparr>running := False, owner := Joining 0\<rparr>)"

text \<open>
  One round of the loop at 62: \<open>thread.join()\<close> returns once that thread has
  returned from \<open>ThreadMain\<close>. After the last round the destructor ends
  (\<open>nvml::Shutdown()\<close> touches no member).
\<close>

definition destructor_join :: "pool \<Rightarrow> pool result" where
  "destructor_join s =
     (case owner s of
        Joining k \<Rightarrow>
          if k < length (threads s)
          then (if threads s ! k = Exited then Next (s\<lparr>owner := Joining (k + 1)\<rparr>) else Blocked)
          else Next (s\<lparr>owner := Destroyed\<rparr>)
      | _ \<Rightarrow> Blocked)"

subsection \<open>ThreadMain\<close>

definition thread_at :: "nat \<Rightarrow> pool \<Rightarrow> thread option" where
  "thread_at i s = (if i < length (threads s) then Some (threads s ! i) else None)"

definition goto :: "nat \<Rightarrow> thread \<Rightarrow> pool \<Rightarrow> pool" where
  "goto i t s = s\<lparr>threads := (threads s)[i := t]\<rparr>"

text \<open>\<open>tl_errors_[thread_id].push(m)\<close>.\<close>

definition push_error :: "nat \<Rightarrow> string \<Rightarrow> pool \<Rightarrow> pool result" where
  "push_error i m s =
     (if i < length (tl_errors s)
      then Next (s\<lparr>tl_errors := (tl_errors s)[i := tl_errors s ! i @ [m]]\<rparr>)
      else Undefined)"

definition and_then :: "pool result \<Rightarrow> (pool \<Rightarrow> pool) \<Rightarrow> pool result" where
  "and_then r f = (case r of Next s \<Rightarrow> Next (f s) | Raised m s \<Rightarrow> Raised m (f s)
                   | Blocked \<Rightarrow> Blocked | Undefined \<Rightarrow> Undefined)"

text \<open>
  Lines 106 to 115. \<open>CUDA_CALL(cudaSetDevice(device_id))\<close> and
  \<open>nvml::SetCPUAffinity()\<close> are outside this file; \<open>r\<close> is what they did. The two
  handlers push without taking the lock.
\<close>

definition ThreadMain_init :: "nat \<Rightarrow> outcome \<Rightarrow> pool \<Rightarrow> pool result" where
  "ThreadMain_init i r s =
     (if thread_at i s = Some Initializing then
        (case r of
           Returns \<Rightarrow> Next (goto i Loop_head s)
         | Throws_runtime_error m \<Rightarrow> and_then (push_error i m s) (goto i Loop_head)
         | Throws_other \<Rightarrow>
             and_then (push_error i ''Caught unknown exception'' s) (goto i Loop_head))
      else Blocked)"

text \<open>Line 117: \<open>while (running_)\<close>.\<close>

definition ThreadMain_check :: "nat \<Rightarrow> pool \<Rightarrow> pool result" where
  "ThreadMain_check i s =
     (if thread_at i s = Some Loop_head
      then Next (goto i (if running s then Waiting else Exited) s)
      else Blocked)"

text \<open>
  Lines 119 to 132, one critical section: the wait on
  \<open>!(running_ && work_queue_.empty())\<close>, the \<open>break\<close>, the pop and the increment.
\<close>

definition ThreadMain_take :: "nat \<Rightarrow> pool \<Rightarrow> pool result" where
  "ThreadMain_take i s =
     (if thread_at i s = Some Waiting then
        (if running s \<and> work_queue s = [] then Blocked
         else if \<not> running s then Next (goto i Exited s)
         else (case work_queue s of
                 [] \<Rightarrow> Undefined
               | work # rest \<Rightarrow>
                   Next (goto i (Executing work)
                          (s\<lparr>work_queue := rest,
                             active_threads := active_threads s + 1,
                             started := started s @ [(i, work)]\<rparr>))))
      else Blocked)"

text \<open>
  Lines 137 to 147: \<open>work(thread_id)\<close> outside the lock; a handler takes the lock for
  its push.
\<close>

definition ThreadMain_run :: "nat \<Rightarrow> pool \<Rightarrow> pool result" where
  "ThreadMain_run i s =
     (case thread_at i s of
        Some (Executing work) \<Rightarrow>
          and_then
            (case work (int i) of
               Returns \<Rightarrow> Next s
             | Throws_runtime_error m \<Rightarrow> push_error i m s
             | Throws_other \<Rightarrow> push_error i ''Caught unknown exception'' s)
            (\<lambda>s'. goto i Completing (s'\<lparr>finished := finished s' @ [(i, work)]\<rparr>))
      | _ \<Rightarrow> Blocked)"

text \<open>Lines 150 to 155, one critical section; the thread is back at line 117.\<close>

definition ThreadMain_complete :: "nat \<Rightarrow> pool \<Rightarrow> pool result" where
  "ThreadMain_complete i s =
     (if thread_at i s = Some Completing then
        (let s1 = s\<lparr>active_threads := active_threads s - 1\<rparr>;
             s2 = (if work_queue s1 = [] \<and> active_threads s1 = 0
                   then s1\<lparr>work_complete := True\<rparr> else s1)
         in Next (goto i Loop_head s2))
      else Blocked)"

subsection \<open>Executions\<close>

text \<open>
  The steps. A call of \<open>DoWorkWithID\<close> or \<open>WaitForWork\<close>, by whatever thread,
  needs a constructed pool whose destructor has not yet returned from its wait: the
  callers of a C++ object have finished with it when its destructor goes on to tear it
  down. The steps are atomic, so an execution is an interleaving; what the C++ memory
  model makes of two unsynchronised accesses is not part of the embedding.
\<close>

datatype event =
    Spawn
  | Resize
  | Submit Work
  | Wait bool
  | Destroy_wait
  | Destroy_stop
  | Join
  | Init nat outcome
  | Check nat
  | Take nat
  | Run nat
  | Complete nat

fun step :: "event \<Rightarrow> pool \<Rightarrow> pool result" where
  "step Spawn s = ThreadPool_spawn s"
| "step Resize s = ThreadPool_resize s"
| "step (Submit work) s = (if owner s = Alive then DoWorkWithID work s else Blocked)"
| "step (Wait checkForErrors) s = (if owner s = Alive then WaitForWork checkForErrors s else Blocked)"
| "step Destroy_wait s = (if owner s = Alive then destructor_wait s else Blocked)"
| "step Destroy_stop s = (if owner s = Stopping then destructor_stop s else Blocked)"
| "step Join s = destructor_join s"
| "step (Init i r) s = ThreadMain_init i r s"
| "step (Check i) s = ThreadMain_check i s"
| "step (Take i) s = ThreadMain_take i s"
| "step (Run i) s = ThreadMain_run i s"
| "step (Complete i) s = ThreadMain_complete i s"

text \<open>
  An execution: a caller that catches what \<open>WaitForWork\<close> throws goes on with the
  pool as the call left it.
\<close>

fun exec :: "event list \<Rightarrow> pool \<Rightarrow> pool result" where
  "exec [] s = Next s"
| "exec (e # es) s =
     (case step e s of
        Next s' \<Rightarrow> exec es s'
      | Raised m s' \<Rightarrow> exec es s'
      | Blocked \<Rightarrow> Blocked
      | Undefined \<Rightarrow> Undefined)"

text \<open>
  An execution from the call of the constructor. A constructor that throws leaves no
  pool, and no step to take.
\<close>

definition from_new :: "int \<Rightarrow> int \<Rightarrow> bool \<Rightarrow> event list \<Rightarrow> pool result" where
  "from_new num_thread device_id set_affinity es =
     (case ThreadPool num_thread device_id set_affinity of
        Inl e \<Rightarrow> Blocked
      | Inr s \<Rightarrow> exec es s)"

section \<open>The condition variables\<close>

text \<open>
  In the steps above a wait on a condition variable is a guard: the step is taken at a
  moment when the predicate holds, whatever woke the thread. That covers every pattern
  of wake-ups, so what holds of all those executions holds of the code. It does not
  show that the code issues the wake-ups a blocked thread needs. For that the waits and
  notifications are made explicit here, on top of the steps:
  \<^item> \<open>condition_.wait(lock, pred)\<close> (line 120) evaluates the predicate; on false
    the worker blocks, and evaluates it again only after it has been woken;
  \<^item> \<open>condition_.notify_one()\<close> (line 76) comes after \<open>DoWorkWithID\<close> has left
    its critical section, as a step of its own; it wakes one blocked worker, any one,
    if there is one;
  \<^item> \<open>condition_.notify_all()\<close> (line 59) is part of the destructor's critical
    section and wakes every blocked worker;
  \<^item> \<open>completed_.wait(lock, pred)\<close> (line 82) in the destructor's
    \<open>WaitForWork(false)\<close> blocks the destructor on false;
    \<open>completed_.notify_one()\<close> (line 154) wakes it.
  A thread may also wake without a notification, as the standard allows.
\<close>

text \<open>
  Which workers are blocked in \<open>condition_.wait\<close>, how many calls of
  \<open>DoWorkWithID\<close> are between their critical section and their \<open>notify_one\<close>,
  and whether the destructor is blocked in \<open>completed_.wait\<close>.
\<close>

record waiters =
  asleep :: "bool list"
  unsignalled :: nat
  dozing :: bool

text \<open>
  A step of the pool, the \<open>notify_one\<close> of a call of \<open>DoWorkWithID\<close> (with the
  worker it wakes), or a wake-up without cause of a worker or of the destructor.
\<close>

datatype cv_event = Pool event | Notify_one nat | Spurious nat | Spurious_destructor

definition lift :: "pool result \<Rightarrow> waiters \<Rightarrow> (pool \<times> waiters) result" where
  "lift r c = (case r of Next s \<Rightarrow> Next (s, c) | Raised m s \<Rightarrow> Raised m (s, c)
               | Blocked \<Rightarrow> Blocked | Undefined \<Rightarrow> Undefined)"

text \<open>
  The steps with their waits and notifications. While the destructor is inside its
  wait, it is the only caller of \<open>WaitForWork\<close>: every other caller has finished with
  the pool, and so has every call of \<open>DoWorkWithID\<close> from outside, up to its
  \<open>notify_one\<close>, before the destructor starts. Calls of \<open>WaitForWork\<close> before
  that stay guards: the embedding does not follow a caller blocked in line 82, and with
  two of them blocked the single \<open>notify_one\<close> of line 154 wakes only one.
\<close>

fun cv_step :: "cv_event \<Rightarrow> pool \<times> waiters \<Rightarrow> (pool \<times> waiters) result" where
  "cv_step (Pool Spawn) (s, c) = lift (step Spawn s) c"
| "cv_step (Pool Resize) (s, c) = lift (step Resize s) c"
| "cv_step (Pool (Submit work)) (s, c) =
     lift (step (Submit work) s) (c\<lparr>unsignalled := unsignalled c + 1\<rparr>)"
| "cv_step (Notify_one j) (s, c) =
     (if unsignalled c = 0 then Blocked
      else if True \<in> set (asleep c) then
        (if j < length (asleep c) \<and> asleep c ! j
         then Next (s, c\<lparr>asleep := (asleep c)[j := False], unsignalled := unsignalled c - 1\<rparr>)
         else Blocked)
      else Next (s, c\<lparr>unsignalled := unsignalled c - 1\<rparr>))"
| "cv_step (Pool (Wait checkForErrors)) (s, c) =
     (if dozing c then Blocked else lift (step (Wait checkForErrors) s) c)"
| "cv_step (Pool Destroy_wait) (s, c) =
     (if unsignalled c \<noteq> 0 \<or> dozing c then Blocked
      else if owner s = Alive \<and> \<not> work_complete s then Next (s, c\<lparr>dozing := True\<rparr>)
      else lift (step Destroy_wait s) c)"
| "cv_step (Pool Destroy_stop) (s, c) =
     lift (step Destroy_stop s) (c\<lparr>asleep := map (\<lambda>a. False) (asleep c)\<rparr>)"
| "cv_step (Pool Join) (s, c) = lift (step Join s) c"
| "cv_step (Pool (Init i r)) (s, c) = lift (step (Init i r) s) c"
| "cv_step (Pool (Check i)) (s, c) = lift (step (Check i) s) c"
| "cv_step (Pool (Take i)) (s, c) =
     (if i < length (asleep c) \<and> asleep c ! i then Blocked
      else if thread_at i s = Some Waiting \<and> running s \<and> work_queue s = []
      then Next (s, c\<lparr>asleep := (asleep c)[i := True]\<rparr>)
      else lift (step (Take i) s) c)"
| "cv_step (Pool (Run i)) (s, c) = lift (step (Run i) s) c"
| "cv_step (Pool (Complete i)) (s, c) =
     (case step (Complete i) s of
        Next s' \<Rightarrow>
          Next (s', if work_queue s' = [] \<and> active_threads s' = 0
                    then c\<lparr>dozing := False\<rparr> else c)
      | r \<Rightarrow> lift r c)"
| "cv_step (Spurious j) (s, c) =
     (if j < length (asleep c) \<and> asleep c ! j
      then Next (s, c\<lparr>asleep := (asleep c)[j := False]\<rparr>) else Blocked)"
| "cv_step Spurious_destructor (s, c) =
     (if dozing c then Next (s, c\<lparr>dozing := False\<rparr>) else Blocked)"

fun cv_exec :: "cv_event list \<Rightarrow> pool \<times> waiters \<Rightarrow> (pool \<times> waiters) result" where
  "cv_exec [] x = Next x"
| "cv_exec (e # es) x =
     (case cv_step e x of
        Next x' \<Rightarrow> cv_exec es x'
      | Raised m x' \<Rightarrow> cv_exec es x'
      | Blocked \<Rightarrow> Blocked
      | Undefined \<Rightarrow> Undefined)"

text \<open>An execution from the call of the constructor: nobody is blocked yet.\<close>

definition cv_from_new :: "int \<Rightarrow> int \<Rightarrow> bool \<Rightarrow> cv_event list \<Rightarrow> (pool \<times> waiters) result" where
  "cv_from_new num_thread device_id set_affinity es =
     (case ThreadPool num_thread device_id set_affinity of
        Inl e \<Rightarrow> Blocked
      | Inr s \<Rightarrow>
          cv_exec es (s, \<lparr>asleep = replicate (length (threads s)) False,
                          unsignalled = 0, dozing = False\<rparr>))"

section \<open>Notions for stating the properties\<close>

subsection \<open>The error registry\<close>

text \<open>
  The lowest index whose error sequence is non-empty (the number of sequences when all are
  empty), and the number of queued errors.
\<close>

definition lowest_failed :: "string list list \<Rightarrow> nat" where
  "lowest_failed errs = length (takeWhile (\<lambda>q. q = []) errs)"

definition pending :: "pool \<Rightarrow> nat" where
  "pending s = sum_list (map length (tl_errors s))"

text \<open>
  An error-checked wait as the specification words it: the oldest error of the
  lowest-indexed worker that has one is removed and reported with the worker's index;
  with no queued error the call returns and changes nothing.
\<close>

definition report :: "pool \<Rightarrow> pool result" where
  "report s =
     (let k = lowest_failed (tl_errors s) in
      if k < length (tl_errors s)
      then Raised (''Error in thread '' @ to_string k @ '': '' @ hd (tl_errors s ! k))
                  (s\<lparr>tl_errors := (tl_errors s)[k := tl (tl_errors s ! k)]\<rparr>)
      else Next s)"

text \<open>What a handler of \<open>ThreadMain\<close> pushes for an outcome.\<close>

definition what :: "outcome \<Rightarrow> string list" where
  "what r = (case r of Returns \<Rightarrow> [] | Throws_runtime_error m \<Rightarrow> [m]
             | Throws_other \<Rightarrow> [''Caught unknown exception''])"

subsection \<open>Steps and invariants\<close>

text \<open>The pool a step leaves behind, whether it returned or threw.\<close>

definition after :: "pool result \<Rightarrow> pool \<Rightarrow> bool" where
  "after r s' = (case r of Next t \<Rightarrow> t = s' | Raised m t \<Rightarrow> t = s' | _ \<Rightarrow> False)"

text \<open>
  A worker between its pop and its final critical section; the item a worker is calling;
  the items being called, each with its worker.
\<close>

fun busy :: "thread \<Rightarrow> bool" where
  "busy (Executing w) = True"
| "busy Completing = True"
| "busy _ = False"

fun item :: "nat \<Rightarrow> thread \<Rightarrow> (nat \<times> Work) list" where
  "item i (Executing w) = [(i, w)]"
| "item i _ = []"

fun in_flight_from :: "nat \<Rightarrow> thread list \<Rightarrow> (nat \<times> Work) list" where
  "in_flight_from n [] = []"
| "in_flight_from n (t # ts) = item n t @ in_flight_from (Suc n) ts"

definition in_flight :: "pool \<Rightarrow> (nat \<times> Work) list" where
  "in_flight s = in_flight_from 0 (threads s)"

text \<open>
  What the owner's place says about the pool: the constructor's loop has started exactly
  the workers below its index and nothing has been submitted; \<open>running\<close> is true until
  the destructor clears it; past the destructor's wait the pool stays drained; the join
  loop has seen every worker below its index return.
\<close>

definition owner_inv :: "pool \<Rightarrow> bool" where
  "owner_inv s =
     (case owner s of
        Constructing k \<Rightarrow>
          k \<le> length (threads s) \<and> running s \<and> submitted s = [] \<and>
          (\<forall>j<length (threads s). (threads s ! j = Not_started) = (k \<le> j))
      | Alive \<Rightarrow>
          running s \<and> length (tl_errors s) = length (threads s) \<and>
          (\<forall>j<length (threads s). threads s ! j \<noteq> Not_started)
      | Stopping \<Rightarrow>
          running s \<and> work_complete s \<and> length (tl_errors s) = length (threads s) \<and>
          (\<forall>j<length (threads s). threads s ! j \<noteq> Not_started)
      | Joining k \<Rightarrow>
          \<not> running s \<and> work_complete s \<and> length (tl_errors s) = length (threads s) \<and>
          (\<forall>j<length (threads s). threads s ! j \<noteq> Not_started) \<and>
          k \<le> length (threads s) \<and> (\<forall>j<k. threads s ! j = Exited)
      | Destroyed \<Rightarrow>
          \<not> running s \<and> work_complete s \<and> length (tl_errors s) = length (threads s) \<and>
          (\<forall>j<length (threads s). threads s ! j = Exited))"

text \<open>
  The invariant of all executions: the completion flag, the counter as the number of
  busy workers, the pops as a prefix of the submissions in order, and every pop either
  finished or in flight.
\<close>

definition pool_inv :: "pool \<Rightarrow> bool" where
  "pool_inv s =
     (work_complete s = (work_queue s = [] \<and> active_threads s = 0) \<and>
      active_threads s = int (length (filter busy (threads s))) \<and>
      length (filter busy (threads s)) \<le> length (started s) \<and>
      owner_inv s \<and>
      map snd (started s) @ work_queue s = submitted s \<and>
      mset (finished s) + mset (in_flight s) = mset (started s) \<and>
      threads s \<noteq> [] \<and>
      (running s \<longrightarrow> (\<forall>j<length (threads s). threads s ! j \<noteq> Exited)))"

subsection \<open>A measure of the steps still to come\<close>

text \<open>
  Every step other than a submission or a wait call moves a thread or the owner forward.
  The measure counts how far each thread is from its exit (an item in the queue costs a
  full round of the loop) and how far the owner is from the end of the destructor.
\<close>

fun rank :: "thread \<Rightarrow> nat" where
  "rank Not_started = 4"
| "rank Initializing = 3"
| "rank Loop_head = 2"
| "rank Waiting = 1"
| "rank (Executing w) = 4"
| "rank Completing = 3"
| "rank Exited = 0"

fun owner_rank :: "nat \<Rightarrow> owner \<Rightarrow> nat" where
  "owner_rank n (Constructing k) = n + 4"
| "owner_rank n Alive = n + 3"
| "owner_rank n Stopping = n + 2"
| "owner_rank n (Joining k) = n - k + 1"
| "owner_rank n Destroyed = 0"

definition remaining :: "pool \<Rightarrow> nat" where
  "remaining s =
     owner_rank (length (threads s)) (owner s) + 4 * length (work_queue s) +
     sum_list (map rank (threads s))"

text \<open>The calls made on the pool from outside, as opposed to the steps of its own threads.\<close>

fun client_call :: "event \<Rightarrow> bool" where
  "client_call (Submit w) = True"
| "client_call (Wait c) = True"
| "client_call _ = False"

subsection \<open>The registry as the record of the calls\<close>

text \<open>
  The sequence of worker \<open>i\<close> in the registry (empty while the registry has no such
  sequence); what the initializer steps of worker \<open>i\<close> in an execution have thrown;
  and what the finished calls of worker \<open>i\<close> have thrown, each item applied to the
  index of the worker that called it.
\<close>

definition errs_at :: "pool \<Rightarrow> nat \<Rightarrow> string list" where
  "errs_at s i = (if i < length (tl_errors s) then tl_errors s ! i else [])"

fun init_what :: "nat \<Rightarrow> event \<Rightarrow> string list" where
  "init_what i (Init j r) = (if j = i then what r else [])"
| "init_what i _ = []"

definition init_errors :: "event list \<Rightarrow> nat \<Rightarrow> string list" where
  "init_errors es i = concat (map (init_what i) es)"

definition call_errors :: "(nat \<times> Work) list \<Rightarrow> nat \<Rightarrow> string list" where
  "call_errors calls i = concat (map (\<lambda>(j, w). if j = i then what (w (int j)) else []) calls)"

text \<open>While the constructor runs, the registry is empty and no call has finished.\<close>

definition registry_inv :: "pool \<Rightarrow> bool" where
  "registry_inv s = ((\<exists>k. owner s = Constructing k) \<longrightarrow> tl_errors s = [] \<and> finished s = [])"

subsection \<open>The blocked threads\<close>

text \<open>The pool and the blocked threads that a step with its waits leaves behind.\<close>

definition cv_after :: "(pool \<times> waiters) result \<Rightarrow> pool \<times> waiters \<Rightarrow> bool" where
  "cv_after r x' = (case r of Next x \<Rightarrow> x = x' | Raised m x \<Rightarrow> x = x' | _ \<Rightarrow> False)"

text \<open>
  What a step of the pool does to the blocked threads once it is taken, and whether the
  blocked threads allow it: a blocked worker does not evaluate its predicate, the
  destructor starts after the calls of \<open>DoWorkWithID\<close> have returned, and nobody
  else waits for completion while the destructor does.
\<close>

fun waiters_after :: "event \<Rightarrow> pool \<Rightarrow> waiters \<Rightarrow> waiters" where
  "waiters_after (Submit work) s' c = c\<lparr>unsignalled := unsignalled c + 1\<rparr>"
| "waiters_after (Complete i) s' c =
     (if work_queue s' = [] \<and> active_threads s' = 0 then c\<lparr>dozing := False\<rparr> else c)"
| "waiters_after Destroy_stop s' c = c\<lparr>asleep := map (\<lambda>a. False) (asleep c)\<rparr>"
| "waiters_after e s' c = c"

fun waiters_allow :: "event \<Rightarrow> waiters \<Rightarrow> bool" where
  "waiters_allow (Take i) c = (\<not> (i < length (asleep c) \<and> asleep c ! i))"
| "waiters_allow Destroy_wait c = (unsignalled c = 0 \<and> \<not> dozing c)"
| "waiters_allow (Wait b) c = (\<not> dozing c)"
| "waiters_allow e c = True"

text \<open>
  The invariant of the blocked threads: one flag per worker; a blocked worker is at its
  wait; after \<open>notify_all\<close> nobody is blocked; a queued item has a
  \<open>notify_one\<close> still to come or a worker that is not blocked; and the destructor is
  blocked only while the pool is in use and its work is not complete.
\<close>

definition waiters_inv :: "pool \<Rightarrow> waiters \<Rightarrow> bool" where
  "waiters_inv s c =
     (length (asleep c) = length (threads s) \<and>
      (\<forall>i<length (threads s). asleep c ! i \<longrightarrow> threads s ! i = Waiting) \<and>
      (\<not> running s \<longrightarrow> (\<forall>i<length (threads s). \<not> asleep c ! i)) \<and>
      (work_queue s \<noteq> [] \<longrightarrow>
         unsignalled c \<noteq> 0 \<or> (\<exists>i<length (threads s). \<not> asleep c ! i)) \<and>
      (dozing c \<longrightarrow> owner s = Alive \<and> \<not> work_complete s))"

definition cv_inv :: "pool \<times> waiters \<Rightarrow> bool" where
  "cv_inv x = (pool_inv (fst x) \<and> waiters_inv (fst x) (snd x))"

text \<open>
  The steps of the pool that an execution with waits performs: a step that finds its
  predicate false blocks the thread and performs nothing.
\<close>

fun blocks :: "event \<Rightarrow> pool \<Rightarrow> bool" where
  "blocks (Take i) s = (thread_at i s = Some Waiting \<and> running s \<and> work_queue s = [])"
| "blocks Destroy_wait s = (owner s = Alive \<and> \<not> work_complete s)"
| "blocks e s = False"

fun performed :: "cv_event \<Rightarrow> pool \<Rightarrow> event list" where
  "performed (Pool e) s = (if blocks e s then [] else [e])"
| "performed e s = []"

fun pool_events :: "cv_event list \<Rightarrow> pool \<times> waiters \<Rightarrow> event list" where
  "pool_events [] x = []"
| "pool_events (e # es) x =
     performed e (fst x) @
     (case cv_step e x of
        Next x' \<Rightarrow> pool_events es x'
      | Raised m x' \<Rightarrow> pool_events es x'
      | _ \<Rightarrow> [])"

fun cv_init_what :: "nat \<Rightarrow> cv_event \<Rightarrow> string list" where
  "cv_init_what i (Pool e) = init_what i e"
| "cv_init_what i e = []"

definition cv_init_errors :: "cv_event list \<Rightarrow> nat \<Rightarrow> string list" where
  "cv_init_errors es i = concat (map (cv_init_what i) es)"

subsection \<open>A measure that counts the wake-ups\<close>

text \<open>
  The number of workers at their wait that are not blocked. The measure of the steps
  still to come, refined: a \<open>notify_one\<close> still to come, a worker about to block
  and the destructor about to block each count, below every step of the pool.
\<close>

fun awake_waiting :: "thread list \<Rightarrow> bool list \<Rightarrow> nat" where
  "awake_waiting (t # ts) (a # as) =
     (if t = Waiting \<and> \<not> a then 1 else 0) + awake_waiting ts as"
| "awake_waiting ts as = 0"

definition cv_remaining :: "pool \<times> waiters \<Rightarrow> nat" where
  "cv_remaining x =
     (length (threads (fst x)) + 2) * remaining (fst x) + 2 * unsignalled (snd x) +
     awake_waiting (threads (fst x)) (asleep (snd x)) + (if dozing (snd x) then 0 else 1)"

text \<open>
  The steps from outside the pool's own threads and its destructor: the calls of the
  client, and the wake-ups without cause.
\<close>

fun cv_client :: "cv_event \<Rightarrow> bool" where
  "cv_client (Pool e) = client_call e"
| "cv_client (Notify_one j) = False"
| "cv_client (Spurious j) = True"
| "cv_client Spurious_destructor = True"

subsection \<open>Concrete items\<close>

definition noop :: Work where
  "noop = (\<lambda>i. Returns)"

definition boom :: Work where
  "boom = (\<lambda>i. Throws_runtime_error ''boom'')"

definition picky :: Work where
  "picky = (\<lambda>i. if i = 1 then Throws_runtime_error ''one'' else Returns)"

section \<open>Evaluation of concrete executions\<close>

lemmas run_defs =
  from_new_def ThreadPool_def ThreadPool_spawn_def ThreadPool_resize_def resize_def DoWorkWithID_def
  WaitForWork_def destructor_wait_def destructor_stop_def destructor_join_def thread_at_def goto_def
  push_error_def and_then_def ThreadMain_init_def ThreadMain_check_def ThreadMain_take_def ThreadMain_run_def ThreadMain_complete_def
  noop_def boom_def numeral_2_eq_2 Let_def

lemmas cv_run_defs = run_defs cv_from_new_def lift_def picky_def

section \<open>The loop of WaitForWork\<close>

lemma takeWhile_from:
  "i \<le> length xs \<Longrightarrow> \<forall>j<i. P (xs ! j) \<Longrightarrow>
   length (takeWhile P xs) = i + length (takeWhile P (drop i xs))"
proof (induction xs arbitrary: i)
  case Nil then show ?case by simp
next
  case (Cons x xs)
  show ?case
  proof (cases i)
    case 0 then show ?thesis by simp
  next
    case (Suc i')
    from Cons.prems Suc have "P x" by auto
    moreover have "\<forall>j<i'. P (xs ! j)" using Cons.prems Suc by auto
    ultimately show ?thesis using Cons.IH[of i'] Cons.prems Suc by simp
  qed
qed

lemma WaitForWork_loop_report:
  "length (tl_errors s) = length (threads s) \<Longrightarrow> i \<le> length (tl_errors s) \<Longrightarrow>
   \<forall>j<i. tl_errors s ! j = [] \<Longrightarrow> WaitForWork_loop i s = report s"
proof (induction i s rule: WaitForWork_loop.induct)
  case (1 i s)
  let ?errs = "tl_errors s"
  have lf: "lowest_failed ?errs = i + length (takeWhile (\<lambda>q. q = []) (drop i ?errs))"
    unfolding lowest_failed_def using takeWhile_from[of i ?errs "\<lambda>q. q = []"] "1.prems" by simp
  show ?case
  proof (cases "i < length ?errs")
    case False
    then have i: "i = length ?errs" using "1.prems" by simp
    have a: "WaitForWork_loop i s = Next s"
      using False "1.prems" by (subst WaitForWork_loop.simps) simp
    have b: "report s = Next s" using lf i by (simp add: report_def Let_def)
    show ?thesis using a b by simp
  next
    case True
    then have d: "drop i ?errs = ?errs ! i # drop (Suc i) ?errs"
      by (simp add: Cons_nth_drop_Suc)
    show ?thesis
    proof (cases "?errs ! i")
      case Nil
      have "\<forall>j<i + 1. ?errs ! j = []" using "1.prems" Nil by (auto simp: less_Suc_eq)
      then have "WaitForWork_loop (i + 1) s = report s"
        using "1.IH" True "1.prems" Nil by simp
      then show ?thesis using True "1.prems" Nil by (simp add: WaitForWork_loop.simps[of i s])
    next
      case (Cons e es)
      then have "lowest_failed ?errs = i" using lf d by simp
      then show ?thesis using True "1.prems" Cons
        by (simp add: WaitForWork_loop.simps[of i s] report_def Let_def)
    qed
  qed
qed

lemma WaitForWork_True_report:
  "work_complete s \<Longrightarrow> length (tl_errors s) = length (threads s) \<Longrightarrow> WaitForWork True s = report s"
  by (simp add: WaitForWork_def WaitForWork_loop_report)

lemma lowest_failed_le: "lowest_failed errs \<le> length errs"
  by (simp add: lowest_failed_def length_takeWhile_le)

lemma lowest_failed_nonempty: "lowest_failed errs < length errs \<Longrightarrow> errs ! lowest_failed errs \<noteq> []"
  unfolding lowest_failed_def using nth_length_takeWhile by blast

lemma lowest_failed_before: "j < lowest_failed errs \<Longrightarrow> errs ! j = []"
  unfolding lowest_failed_def
  by (metis (mono_tags, lifting) nth_mem set_takeWhileD takeWhile_nth)

lemma sum_list_length_update:
  "k < length xs \<Longrightarrow> xs ! k \<noteq> [] \<Longrightarrow>
   Suc (sum_list (map length (xs[k := tl (xs ! k)]))) = sum_list (map length xs)"
proof (induction xs arbitrary: k)
  case Nil then show ?case by simp
next
  case (Cons x xs) then show ?case by (cases k) (auto simp: Suc_pred)
qed

lemma sum_list_length_zero:
  "sum_list (map length xs) = 0 \<longleftrightarrow> length (takeWhile (\<lambda>q. q = []) xs) = length xs"
  by (induction xs) auto

lemma pending_zero: "pending s = 0 \<longleftrightarrow> lowest_failed (tl_errors s) = length (tl_errors s)"
  unfolding pending_def lowest_failed_def by (rule sum_list_length_zero)

lemma report_cases:
  "report s = Next s \<and> pending s = 0 \<or>
   (\<exists>m s'. report s = Raised m s' \<and> Suc (pending s') = pending s \<and>
      work_complete s' = work_complete s \<and> threads s' = threads s \<and>
      length (tl_errors s') = length (tl_errors s) \<and> owner s' = owner s)"
proof (cases "lowest_failed (tl_errors s) < length (tl_errors s)")
  case True
  then have "tl_errors s ! lowest_failed (tl_errors s) \<noteq> []" by (rule lowest_failed_nonempty)
  then show ?thesis using True sum_list_length_update[of "lowest_failed (tl_errors s)" "tl_errors s"]
    by (simp add: report_def pending_def Let_def)
next
  case False
  then have "lowest_failed (tl_errors s) = length (tl_errors s)"
    using lowest_failed_le[of "tl_errors s"] by simp
  then show ?thesis using pending_zero[of s] by (simp add: report_def Let_def)
qed

lemma drain:
  "work_complete s \<Longrightarrow> length (tl_errors s) = length (threads s) \<Longrightarrow> owner s = Alive \<Longrightarrow>
   n \<le> pending s \<Longrightarrow>
   \<exists>s'. exec (replicate n (Wait True)) s = Next s' \<and> pending s' = pending s - n"
proof (induction n arbitrary: s)
  case 0 then show ?case by simp
next
  case (Suc n)
  from Suc.prems have w: "WaitForWork True s = report s" by (simp add: WaitForWork_True_report)
  from Suc.prems have "pending s \<noteq> 0" by simp
  with report_cases[of s] obtain m s1 where r: "report s = Raised m s1"
    and p: "Suc (pending s1) = pending s" and k: "work_complete s1 = work_complete s"
    "threads s1 = threads s" "length (tl_errors s1) = length (tl_errors s)" "owner s1 = owner s"
    by auto
  have "\<exists>s'. exec (replicate n (Wait True)) s1 = Next s' \<and> pending s' = pending s1 - n"
    using Suc.IH[of s1] Suc.prems p k by simp
  then show ?case using w r p Suc.prems by auto
qed

section \<open>The steps, case by case\<close>

lemma WaitForWork_loop_after:
  "after (WaitForWork_loop i s) s' \<Longrightarrow>
   \<exists>errs. s' = s\<lparr>tl_errors := errs\<rparr> \<and> length errs = length (tl_errors s)"
proof (induction i s rule: WaitForWork_loop.induct)
  case (1 i s)
  show ?case
  proof (cases "i < length (threads s) \<and> i < length (tl_errors s)")
    case False
    then have "s' = s" using "1.prems"
      by (subst (asm) WaitForWork_loop.simps) (auto simp: after_def split: if_splits)
    then have "s' = s\<lparr>tl_errors := tl_errors s\<rparr>" by simp
    then show ?thesis by blast
  next
    case True
    show ?thesis
    proof (cases "tl_errors s ! i")
      case Nil
      then have "after (WaitForWork_loop (i + 1) s) s'" using "1.prems" True
        by (subst (asm) WaitForWork_loop.simps) simp
      then show ?thesis using "1.IH" True Nil by simp
    next
      case (Cons e es)
      then have "s' = s\<lparr>tl_errors := (tl_errors s)[i := es]\<rparr>" using "1.prems" True
        by (subst (asm) WaitForWork_loop.simps) (simp add: after_def)
      then show ?thesis by (metis length_list_update)
    qed
  qed
qed

lemma push_error_after:
  "after (and_then (push_error i m s) f) s' \<Longrightarrow>
   \<exists>errs. s' = f (s\<lparr>tl_errors := errs\<rparr>) \<and> length errs = length (tl_errors s)"
  by (auto simp: after_def and_then_def push_error_def split: if_splits)

lemma step_cases [consumes 1, case_names Spawn Resize Submit Wait Destroy_wait Destroy_stop
    Join Joined Init Check_run Check_exit Take_exit Take_work Run Complete]:
  assumes "after (step e s) s'"
  obtains
    k where "e = Spawn" "owner s = Constructing k" "k < length (threads s)"
      "s' = s\<lparr>threads := (threads s)[k := Initializing], owner := Constructing (k + 1)\<rparr>"
  | k where "e = Resize" "owner s = Constructing k" "\<not> k < length (threads s)"
      "s' = s\<lparr>tl_errors := resize (length (threads s)) (tl_errors s), owner := Alive\<rparr>"
  | w where "e = Submit w" "owner s = Alive"
      "s' = s\<lparr>work_queue := work_queue s @ [w], work_complete := False,
              submitted := submitted s @ [w]\<rparr>"
  | c errs where "e = Wait c" "owner s = Alive" "work_complete s"
      "s' = s\<lparr>tl_errors := errs\<rparr>" "length errs = length (tl_errors s)"
  | "e = Destroy_wait" "owner s = Alive" "work_complete s" "s' = s\<lparr>owner := Stopping\<rparr>"
  | "e = Destroy_stop" "owner s = Stopping" "s' = s\<lparr>running := False, owner := Joining 0\<rparr>"
  | k where "e = Join" "owner s = Joining k" "k < length (threads s)" "threads s ! k = Exited"
      "s' = s\<lparr>owner := Joining (k + 1)\<rparr>"
  | k where "e = Join" "owner s = Joining k" "\<not> k < length (threads s)"
      "s' = s\<lparr>owner := Destroyed\<rparr>"
  | i r errs where "e = Init i r" "i < length (threads s)" "threads s ! i = Initializing"
      "s' = s\<lparr>tl_errors := errs, threads := (threads s)[i := Loop_head]\<rparr>"
      "length errs = length (tl_errors s)"
  | i where "e = Check i" "i < length (threads s)" "threads s ! i = Loop_head" "running s"
      "s' = s\<lparr>threads := (threads s)[i := Waiting]\<rparr>"
  | i where "e = Check i" "i < length (threads s)" "threads s ! i = Loop_head" "\<not> running s"
      "s' = s\<lparr>threads := (threads s)[i := Exited]\<rparr>"
  | i where "e = Take i" "i < length (threads s)" "threads s ! i = Waiting" "\<not> running s"
      "s' = s\<lparr>threads := (threads s)[i := Exited]\<rparr>"
  | i w rest where "e = Take i" "i < length (threads s)" "threads s ! i = Waiting" "running s"
      "work_queue s = w # rest"
      "s' = s\<lparr>work_queue := rest, active_threads := active_threads s + 1,
              started := started s @ [(i, w)], threads := (threads s)[i := Executing w]\<rparr>"
  | i w errs where "e = Run i" "i < length (threads s)" "threads s ! i = Executing w"
      "s' = s\<lparr>tl_errors := errs, finished := finished s @ [(i, w)],
              threads := (threads s)[i := Completing]\<rparr>"
      "length errs = length (tl_errors s)"
  | i where "e = Complete i" "i < length (threads s)" "threads s ! i = Completing"
      "s' = s\<lparr>active_threads := active_threads s - 1,
              work_complete := (work_queue s = [] \<and> active_threads s - 1 = 0) \<or> work_complete s,
              threads := (threads s)[i := Loop_head]\<rparr>"
proof (cases e)
  case Spawn
  then show ?thesis using assms that(1)
    by (auto simp: after_def ThreadPool_spawn_def split: owner.splits if_splits)
next
  case Resize
  then show ?thesis using assms that(2)
    by (auto simp: after_def ThreadPool_resize_def split: owner.splits if_splits)
next
  case (Submit w)
  then show ?thesis using assms that(3)
    by (auto simp: after_def DoWorkWithID_def split: if_splits)
next
  case (Wait c)
  with assms have o: "owner s = Alive" and wc: "work_complete s"
    by (auto simp: after_def WaitForWork_def split: if_splits)
  have "\<exists>errs. s' = s\<lparr>tl_errors := errs\<rparr> \<and> length errs = length (tl_errors s)"
  proof (cases c)
    case True
    then have "after (WaitForWork_loop 0 s) s'" using assms Wait o wc by (simp add: WaitForWork_def)
    then show ?thesis by (rule WaitForWork_loop_after)
  next
    case False
    then have "s' = s\<lparr>tl_errors := tl_errors s\<rparr>" using assms Wait o wc
      by (simp add: WaitForWork_def after_def)
    then show ?thesis by blast
  qed
  then show ?thesis using that(4) Wait o wc by blast
next
  case Destroy_wait
  then show ?thesis using assms that(5)
    by (auto simp: after_def destructor_wait_def WaitForWork_def split: if_splits)
next
  case Destroy_stop
  then show ?thesis using assms that(6)
    by (auto simp: after_def destructor_stop_def split: if_splits)
next
  case Join
  then show ?thesis using assms that(7) that(8)
    by (auto simp: after_def destructor_join_def split: owner.splits if_splits)
next
  case (Init i r)
  with assms have a: "i < length (threads s)" "threads s ! i = Initializing"
    by (auto simp: after_def ThreadMain_init_def thread_at_def split: if_splits)
  have "\<exists>errs. s' = goto i Loop_head (s\<lparr>tl_errors := errs\<rparr>) \<and> length errs = length (tl_errors s)"
  proof (cases r)
    case Returns
    then have "s' = goto i Loop_head (s\<lparr>tl_errors := tl_errors s\<rparr>)" using assms Init a
      by (simp add: ThreadMain_init_def thread_at_def after_def)
    then show ?thesis by blast
  next
    case (Throws_runtime_error m)
    then show ?thesis using assms Init a push_error_after[of i m s "goto i Loop_head" s']
      by (simp add: ThreadMain_init_def thread_at_def)
  next
    case Throws_other
    then show ?thesis using assms Init a
        push_error_after[of i "''Caught unknown exception''" s "goto i Loop_head" s']
      by (simp add: ThreadMain_init_def thread_at_def)
  qed
  then show ?thesis using that(9) Init a by (auto simp: goto_def)
next
  case (Check i)
  then show ?thesis using assms that(10) that(11)
    by (auto simp: after_def ThreadMain_check_def thread_at_def goto_def split: if_splits)
next
  case (Take i)
  then show ?thesis using assms that(12) that(13)
    by (auto simp: after_def ThreadMain_take_def thread_at_def goto_def split: if_splits list.splits)
next
  case (Run i)
  with assms obtain w where a: "i < length (threads s)" "threads s ! i = Executing w"
    by (auto simp: after_def ThreadMain_run_def thread_at_def split: if_splits option.splits thread.splits)
  let ?f = "\<lambda>s'. goto i Completing (s'\<lparr>finished := finished s' @ [(i, w)]\<rparr>)"
  have "\<exists>errs. s' = ?f (s\<lparr>tl_errors := errs\<rparr>) \<and> length errs = length (tl_errors s)"
  proof (cases "w (int i)")
    case Returns
    then have "s' = ?f (s\<lparr>tl_errors := tl_errors s\<rparr>)" using assms Run a
      by (simp add: ThreadMain_run_def thread_at_def after_def and_then_def)
    then show ?thesis by blast
  next
    case (Throws_runtime_error m)
    then show ?thesis using assms Run a push_error_after[of i m s ?f s']
      by (simp add: ThreadMain_run_def thread_at_def)
  next
    case Throws_other
    then show ?thesis using assms Run a
        push_error_after[of i "''Caught unknown exception''" s ?f s']
      by (simp add: ThreadMain_run_def thread_at_def)
  qed
  then show ?thesis using that(14) Run a by (auto simp: goto_def)
next
  case (Complete i)
  then show ?thesis using assms that(15)
    by (auto simp: after_def ThreadMain_complete_def thread_at_def goto_def Let_def split: if_splits)
qed

section \<open>Lists of threads under update\<close>

lemma filter_busy_update:
  "i < length ts \<Longrightarrow>
   length (filter busy (ts[i := t])) + (if busy (ts ! i) then 1 else 0) =
   length (filter busy ts) + (if busy t then 1 else 0)"
proof (induction ts arbitrary: i)
  case Nil then show ?case by simp
next
  case (Cons a ts) then show ?case by (cases i) auto
qed

lemma in_flight_from_update:
  "i < length ts \<Longrightarrow>
   mset (in_flight_from n (ts[i := t])) + mset (item (n + i) (ts ! i)) =
   mset (in_flight_from n ts) + mset (item (n + i) t)"
proof (induction ts arbitrary: i n)
  case Nil then show ?case by simp
next
  case (Cons a ts)
  show ?case
  proof (cases i)
    case 0 then show ?thesis by simp
  next
    case (Suc j)
    then have "j < length ts" using Cons.prems by simp
    from Cons.IH[OF this, of "Suc n"] Suc show ?thesis by simp
  qed
qed

lemma busy_idle_update:
  "i < length ts \<Longrightarrow> \<not> busy (ts ! i) \<Longrightarrow> \<not> busy t \<Longrightarrow>
   filter busy (ts[i := t]) = filter busy ts"
proof (induction ts arbitrary: i)
  case Nil then show ?case by simp
next
  case (Cons a ts) then show ?case by (cases i) auto
qed

lemma in_flight_idle_update:
  "i < length ts \<Longrightarrow> item (n + i) (ts ! i) = [] \<Longrightarrow> item (n + i) t = [] \<Longrightarrow>
   mset (in_flight_from n (ts[i := t])) = mset (in_flight_from n ts)"
  using in_flight_from_update[of i ts n t] by simp

lemma busy_present: "i < length ts \<Longrightarrow> busy (ts ! i) \<Longrightarrow> 0 < length (filter busy ts)"
  by (metis filter_empty_conv length_greater_0_conv nth_mem)

lemma length_resize: "length (resize n xs) = n"
  by (simp add: resize_def)

section \<open>The invariant holds in every execution\<close>

lemma in_flight_from_fresh: "in_flight_from n (replicate k Not_started) = []"
  by (induction k arbitrary: n) auto

lemma pool_inv_new:
  "ThreadPool num_thread device_id set_affinity = Inr s \<Longrightarrow> pool_inv s"
  by (auto simp: ThreadPool_def pool_inv_def owner_inv_def in_flight_def in_flight_from_fresh
      split: if_splits)

lemma pool_inv_step:
  assumes inv: "pool_inv s" and st: "after (step e s) s'"
  shows "pool_inv s'"
proof -
  from inv have
    i1: "work_complete s = (work_queue s = [] \<and> active_threads s = 0)" and
    i2: "active_threads s = int (length (filter busy (threads s)))" and
    i3: "length (filter busy (threads s)) \<le> length (started s)" and
    i4: "owner_inv s" and
    i5: "map snd (started s) @ work_queue s = submitted s" and
    i6: "mset (finished s) + mset (in_flight_from 0 (threads s)) = mset (started s)" and
    i7: "threads s \<noteq> []" and
    i8: "running s \<longrightarrow> (\<forall>j<length (threads s). threads s ! j \<noteq> Exited)"
    by (simp_all add: pool_inv_def in_flight_def)
  from st show ?thesis
  proof (cases rule: step_cases)
    case (Spawn k)
    have n: "threads s ! k = Not_started" using i4 Spawn by (simp add: owner_inv_def)
    have b: "filter busy ((threads s)[k := Initializing]) = filter busy (threads s)"
      using Spawn n by (simp add: busy_idle_update)
    have f: "mset (in_flight_from 0 ((threads s)[k := Initializing])) =
             mset (in_flight_from 0 (threads s))"
      using Spawn n by (simp add: in_flight_idle_update)
    have o: "owner_inv s'" using i4 Spawn
      by (auto simp: owner_inv_def nth_list_update)
    show ?thesis using i1 i2 i3 i5 i6 b f o Spawn i7 i8
      by (simp add: pool_inv_def in_flight_def nth_list_update)
  next
    case (Resize k)
    have o: "owner_inv s'" using i4 Resize
      by (auto simp: owner_inv_def length_resize)
    show ?thesis using i1 i2 i3 i5 i6 o Resize i7 i8
      by (simp add: pool_inv_def in_flight_def nth_list_update)
  next
    case (Submit w)
    have o: "owner_inv s'" using i4 Submit by (simp add: owner_inv_def)
    show ?thesis using i1 i2 i3 i5 i6 o Submit i7 i8
      by (simp add: pool_inv_def in_flight_def nth_list_update)
  next
    case (Wait c errs)
    have o: "owner_inv s'" using i4 Wait by (simp add: owner_inv_def)
    show ?thesis using i1 i2 i3 i5 i6 o Wait i7 i8
      by (simp add: pool_inv_def in_flight_def nth_list_update)
  next
    case Destroy_wait
    have o: "owner_inv s'" using i4 Destroy_wait by (simp add: owner_inv_def)
    show ?thesis using i1 i2 i3 i5 i6 o Destroy_wait i7 i8
      by (simp add: pool_inv_def in_flight_def nth_list_update)
  next
    case Destroy_stop
    have o: "owner_inv s'" using i4 Destroy_stop by (simp add: owner_inv_def)
    show ?thesis using i1 i2 i3 i5 i6 o Destroy_stop i7 i8
      by (simp add: pool_inv_def in_flight_def nth_list_update)
  next
    case (Join k)
    have o: "owner_inv s'" using i4 Join by (auto simp: owner_inv_def less_Suc_eq)
    show ?thesis using i1 i2 i3 i5 i6 o Join i7 i8
      by (simp add: pool_inv_def in_flight_def nth_list_update)
  next
    case (Joined k)
    have o: "owner_inv s'" using i4 Joined by (auto simp: owner_inv_def)
    show ?thesis using i1 i2 i3 i5 i6 o Joined i7 i8
      by (simp add: pool_inv_def in_flight_def nth_list_update)
  next
    case (Init i r errs)
    have b: "filter busy ((threads s)[i := Loop_head]) = filter busy (threads s)"
      using Init by (simp add: busy_idle_update)
    have f: "mset (in_flight_from 0 ((threads s)[i := Loop_head])) =
             mset (in_flight_from 0 (threads s))"
      using Init by (simp add: in_flight_idle_update)
    have o: "owner_inv s'" using i4 Init
      by (auto simp: owner_inv_def nth_list_update split: owner.splits)
    show ?thesis using i1 i2 i3 i5 i6 b f o Init i7 i8
      by (simp add: pool_inv_def in_flight_def nth_list_update)
  next
    case (Check_run i)
    have b: "filter busy ((threads s)[i := Waiting]) = filter busy (threads s)"
      using Check_run by (simp add: busy_idle_update)
    have f: "mset (in_flight_from 0 ((threads s)[i := Waiting])) =
             mset (in_flight_from 0 (threads s))"
      using Check_run by (simp add: in_flight_idle_update)
    have o: "owner_inv s'" using i4 Check_run
      by (auto simp: owner_inv_def nth_list_update split: owner.splits)
    show ?thesis using i1 i2 i3 i5 i6 b f o Check_run i7 i8
      by (simp add: pool_inv_def in_flight_def nth_list_update)
  next
    case (Check_exit i)
    have b: "filter busy ((threads s)[i := Exited]) = filter busy (threads s)"
      using Check_exit by (simp add: busy_idle_update)
    have f: "mset (in_flight_from 0 ((threads s)[i := Exited])) =
             mset (in_flight_from 0 (threads s))"
      using Check_exit by (simp add: in_flight_idle_update)
    have o: "owner_inv s'" using i4 Check_exit
      by (auto simp: owner_inv_def nth_list_update split: owner.splits)
    show ?thesis using i1 i2 i3 i5 i6 b f o Check_exit i7 i8
      by (simp add: pool_inv_def in_flight_def nth_list_update)
  next
    case (Take_exit i)
    have b: "filter busy ((threads s)[i := Exited]) = filter busy (threads s)"
      using Take_exit by (simp add: busy_idle_update)
    have f: "mset (in_flight_from 0 ((threads s)[i := Exited])) =
             mset (in_flight_from 0 (threads s))"
      using Take_exit by (simp add: in_flight_idle_update)
    have o: "owner_inv s'" using i4 Take_exit
      by (auto simp: owner_inv_def nth_list_update split: owner.splits)
    show ?thesis using i1 i2 i3 i5 i6 b f o Take_exit i7 i8
      by (simp add: pool_inv_def in_flight_def nth_list_update)
  next
    case (Take_work i w rest)
    have nc: "\<not> work_complete s" using i1 Take_work by simp
    have b: "length (filter busy ((threads s)[i := Executing w])) =
             Suc (length (filter busy (threads s)))"
      using Take_work filter_busy_update[of i "threads s" "Executing w"] by simp
    have f: "mset (in_flight_from 0 ((threads s)[i := Executing w])) =
             mset (in_flight_from 0 (threads s)) + {#(i, w)#}"
      using Take_work in_flight_from_update[of i "threads s" 0 "Executing w"] by simp
    have o: "owner_inv s'" using i4 Take_work nc
      by (auto simp: owner_inv_def nth_list_update split: owner.splits)
    show ?thesis using i1 i2 i3 i5 i6 b f o nc Take_work i7 i8
      by (simp add: pool_inv_def in_flight_def nth_list_update)
  next
    case (Run i w errs)
    have "0 < length (filter busy (threads s))"
      using Run busy_present[of i "threads s"] by simp
    then have nc: "\<not> work_complete s" using i1 i2 by simp
    have b: "length (filter busy ((threads s)[i := Completing])) =
             length (filter busy (threads s))"
      using Run filter_busy_update[of i "threads s" Completing] by simp
    have f: "mset (in_flight_from 0 ((threads s)[i := Completing])) + {#(i, w)#} =
             mset (in_flight_from 0 (threads s))"
      using Run in_flight_from_update[of i "threads s" 0 Completing] by simp
    have o: "owner_inv s'" using i4 Run nc
      by (auto simp: owner_inv_def nth_list_update split: owner.splits)
    have "mset (finished s) + (mset (in_flight_from 0 ((threads s)[i := Completing])) + {#(i, w)#}) =
          mset (started s)"
      using i6 f by simp
    then have m: "mset (finished s') + mset (in_flight_from 0 (threads s')) = mset (started s')"
      using Run by simp
    show ?thesis using i1 i2 i3 i5 b o m nc Run i7 i8
      by (simp add: pool_inv_def in_flight_def nth_list_update)
  next
    case (Complete i)
    have p: "0 < length (filter busy (threads s))"
      using Complete busy_present[of i "threads s"] by simp
    then have nc: "\<not> work_complete s" using i1 i2 by simp
    have b: "Suc (length (filter busy ((threads s)[i := Loop_head]))) =
             length (filter busy (threads s))"
      using Complete filter_busy_update[of i "threads s" Loop_head] by simp
    have f: "mset (in_flight_from 0 ((threads s)[i := Loop_head])) =
             mset (in_flight_from 0 (threads s))"
      using Complete by (simp add: in_flight_idle_update)
    have o: "owner_inv s'" using i4 Complete nc
      by (auto simp: owner_inv_def nth_list_update split: owner.splits)
    have a: "active_threads s' = int (length (filter busy (threads s')))"
      using i2 b Complete by simp
    show ?thesis using i1 i3 i5 i6 a b f o nc Complete i7 i8
      by (simp add: pool_inv_def in_flight_def nth_list_update)
  qed
qed

lemma pool_inv_exec:
  "pool_inv s \<Longrightarrow> exec es s = Next s' \<Longrightarrow> pool_inv s'"
proof (induction es arbitrary: s)
  case Nil then show ?case by simp
next
  case (Cons e es)
  show ?case
  proof (cases "step e s")
    case (Next t)
    then have "pool_inv t" using Cons.prems pool_inv_step[of s e t] by (simp add: after_def)
    then show ?thesis using Cons Next by simp
  next
    case (Raised m t)
    then have "pool_inv t" using Cons.prems pool_inv_step[of s e t] by (simp add: after_def)
    then show ?thesis using Cons Raised by simp
  qed (use Cons.prems in simp_all)
qed

lemma pool_inv_from_new:
  "from_new num_thread device_id set_affinity es = Next s \<Longrightarrow> pool_inv s"
  by (auto simp: from_new_def split: sum.splits dest: pool_inv_new pool_inv_exec)

section \<open>Consequences of the invariant\<close>

lemma idle_in_flight: "\<forall>t\<in>set ts. \<not> busy t \<Longrightarrow> in_flight_from n ts = []"
proof (induction ts arbitrary: n)
  case Nil then show ?case by simp
next
  case (Cons t ts) then show ?case by (cases t) auto
qed

lemma pool_inv_idle:
  assumes "pool_inv s" and "work_complete s"
  shows "work_queue s = []" and "active_threads s = 0" and "\<forall>t\<in>set (threads s). \<not> busy t"
    and "map snd (started s) = submitted s" and "mset (finished s) = mset (started s)"
proof -
  from assms show q: "work_queue s = []" and a: "active_threads s = 0"
    by (simp_all add: pool_inv_def)
  from assms a have "filter busy (threads s) = []" by (simp add: pool_inv_def)
  then show b: "\<forall>t\<in>set (threads s). \<not> busy t" by (simp add: filter_empty_conv)
  from assms q show "map snd (started s) = submitted s" by (simp add: pool_inv_def)
  from b have "in_flight s = []" by (simp add: in_flight_def idle_in_flight)
  with assms show "mset (finished s) = mset (started s)" by (simp add: pool_inv_def)
qed

lemma pool_inv_stopped:
  assumes "pool_inv s" and "owner s = Stopping \<or> \<not> running s"
  shows "work_complete s"
  using assms by (auto simp: pool_inv_def owner_inv_def split: owner.splits)





lemma fresh_idle:
  assumes "pool_inv s" and "submitted s = []"
  shows "work_complete s"
proof -
  from assms have "started s = []" and q: "work_queue s = []" by (auto simp: pool_inv_def)
  with assms have "active_threads s = 0" by (simp add: pool_inv_def)
  with assms q show ?thesis by (simp add: pool_inv_def)
qed

section \<open>What construction and the handlers establish\<close>

text \<open>
  Once the constructor has returned, the pool has exactly \<open>num_thread\<close> workers, all
  started, and one error sequence for each. A worker that is calling an item always has
  its sequence, so the handlers of lines 139 to 147 record what the item threw and the
  worker goes on to its final critical section. The handlers of lines 111 to 115 do the
  same for the initializer wherever the worker's sequence exists.
\<close>

lemma threads_length_step:
  assumes "after (step e s) s'"
  shows "length (threads s') = length (threads s)"
  using assms by (cases rule: step_cases) simp_all

lemma threads_length_exec:
  "exec es s = Next s' \<Longrightarrow> length (threads s') = length (threads s)"
proof (induction es arbitrary: s)
  case Nil then show ?case by simp
next
  case (Cons e es)
  show ?case
  proof (cases "step e s")
    case (Next t)
    then have "length (threads t) = length (threads s)"
      using threads_length_step[of e s t] by (simp add: after_def)
    then show ?thesis using Cons Next by simp
  next
    case (Raised m t)
    then have "length (threads t) = length (threads s)"
      using threads_length_step[of e s t] by (simp add: after_def)
    then show ?thesis using Cons Raised by simp
  qed (use Cons.prems in simp_all)
qed

lemma constructed_pool:
  assumes "from_new num_thread device_id set_affinity es = Next s"
    and "\<forall>k. owner s \<noteq> Constructing k"
  shows "0 < num_thread \<and> length (threads s) = nat num_thread \<and>
         length (tl_errors s) = nat num_thread \<and>
         (\<forall>i<length (threads s). threads s ! i \<noteq> Not_started)"
proof -
  from assms(1) obtain s0 where n: "ThreadPool num_thread device_id set_affinity = Inr s0"
    and e: "exec es s0 = Next s"
    by (auto simp: from_new_def split: sum.splits)
  from n have p: "0 < num_thread" and l0: "length (threads s0) = nat num_thread"
    by (auto simp: ThreadPool_def split: if_splits)
  have l: "length (threads s) = nat num_thread" using threads_length_exec[OF e] l0 by simp
  have "owner_inv s" using pool_inv_from_new[OF assms(1)] by (simp add: pool_inv_def)
  then have "length (tl_errors s) = length (threads s) \<and>
             (\<forall>i<length (threads s). threads s ! i \<noteq> Not_started)"
    using assms(2) by (cases "owner s") (auto simp: owner_inv_def)
  with p l show ?thesis by simp
qed

lemma busy_allocated:
  assumes "pool_inv s" and "i < length (threads s)" and "busy (threads s ! i)"
  shows "i < length (tl_errors s)"
proof -
  have "0 < length (filter busy (threads s))" using assms(2,3) by (rule busy_present)
  then have "submitted s \<noteq> []" using assms(1) by (auto simp: pool_inv_def)
  then show ?thesis using assms(1,2)
    by (cases "owner s") (auto simp: pool_inv_def owner_inv_def)
qed

lemma work_failure_recorded:
  assumes "from_new num_thread device_id set_affinity es = Next s"
    and "thread_at i s = Some (Executing w)"
  shows "step (Run i) s =
           Next (s\<lparr>tl_errors := (tl_errors s)[i := tl_errors s ! i @ what (w (int i))],
                   finished := finished s @ [(i, w)],
                   threads := (threads s)[i := Completing]\<rparr>)"
proof -
  have inv: "pool_inv s" using assms(1) by (rule pool_inv_from_new)
  from assms(2) have i: "i < length (threads s)" and t: "threads s ! i = Executing w"
    by (auto simp: thread_at_def split: if_splits)
  then have "i < length (tl_errors s)" using busy_allocated[OF inv, of i] by simp
  then show ?thesis using assms(2)
    by (cases "w (int i)") (simp_all add: ThreadMain_run_def push_error_def and_then_def goto_def what_def)
qed

lemma initializer_failure_recorded:
  assumes "thread_at i s = Some Initializing" and "i < length (tl_errors s)"
  shows "step (Init i r) s =
           Next (s\<lparr>tl_errors := (tl_errors s)[i := tl_errors s ! i @ what r],
                   threads := (threads s)[i := Loop_head]\<rparr>)"
  using assms
  by (cases r) (simp_all add: ThreadMain_init_def push_error_def and_then_def goto_def what_def)

section \<open>Every pool can be drained and destroyed\<close>

lemma rank_update:
  "i < length ts \<Longrightarrow>
   sum_list (map rank (ts[i := t])) + rank (ts ! i) = sum_list (map rank ts) + rank t"
proof (induction ts arbitrary: i)
  case Nil then show ?case by simp
next
  case (Cons a ts) then show ?case by (cases i) auto
qed



lemma step_decreases:
  assumes inv: "pool_inv s" and st: "after (step e s) s'" and c: "\<not> client_call e"
  shows "remaining s' < remaining s"
proof -
  from inv have i4: "owner_inv s" by (simp add: pool_inv_def)
  from st show ?thesis
  proof (cases rule: step_cases)
    case (Spawn k)
    have "threads s ! k = Not_started" using i4 Spawn by (simp add: owner_inv_def)
    then show ?thesis using Spawn rank_update[of k "threads s" Initializing]
      by (simp add: remaining_def)
  next
    case (Submit w) with c show ?thesis by simp
  next
    case (Wait b errs) with c show ?thesis by simp
  next
    case (Init i r errs)
    then show ?thesis using rank_update[of i "threads s" Loop_head] by (simp add: remaining_def)
  next
    case (Check_run i)
    then show ?thesis using rank_update[of i "threads s" Waiting] by (simp add: remaining_def)
  next
    case (Check_exit i)
    then show ?thesis using rank_update[of i "threads s" Exited] by (simp add: remaining_def)
  next
    case (Take_exit i)
    then show ?thesis using rank_update[of i "threads s" Exited] by (simp add: remaining_def)
  next
    case (Take_work i w rest)
    then show ?thesis using rank_update[of i "threads s" "Executing w"]
      by (simp add: remaining_def)
  next
    case (Run i w errs)
    then show ?thesis using rank_update[of i "threads s" Completing] by (simp add: remaining_def)
  next
    case (Complete i)
    then show ?thesis using rank_update[of i "threads s" Loop_head] by (simp add: remaining_def)
  qed (simp_all add: remaining_def)
qed



section \<open>The registry records the calls\<close>

lemma step_raises: "step e s = Raised m s' \<Longrightarrow> e = Wait True"
  by (cases e)
    (auto simp: ThreadPool_spawn_def ThreadPool_resize_def DoWorkWithID_def WaitForWork_def
      destructor_wait_def destructor_stop_def destructor_join_def ThreadMain_init_def
      ThreadMain_check_def ThreadMain_take_def ThreadMain_run_def ThreadMain_complete_def
      and_then_def push_error_def Let_def
      split: if_splits owner.splits option.splits thread.splits outcome.splits list.splits)

lemma errs_at_push:
  "i < length (tl_errors s) \<Longrightarrow>
   errs_at (s\<lparr>tl_errors := (tl_errors s)[i := tl_errors s ! i @ ms]\<rparr>) j =
   errs_at s j @ (if j = i then ms else [])"
  by (simp add: errs_at_def nth_list_update)

lemma step_registry:
  assumes inv: "pool_inv s" and reg: "registry_inv s"
    and st: "step e s = Next s'" and e: "e \<noteq> Wait True"
  shows "\<exists>calls. finished s' = finished s @ calls \<and>
           (\<forall>i. errs_at s' i = errs_at s i @ init_what i e @ call_errors calls i) \<and>
           (\<forall>j w. (j, w) \<in> set calls \<longrightarrow> j < length (threads s') \<and> threads s' ! j = Completing)"
proof (cases e)
  case Spawn
  then have "finished s' = finished s \<and> tl_errors s' = tl_errors s" using st
    by (auto simp: ThreadPool_spawn_def split: owner.splits if_splits)
  then show ?thesis using Spawn by (intro exI[of _ "[]"]) (simp add: errs_at_def call_errors_def)
next
  case Resize
  then obtain k where "owner s = Constructing k" using st
    by (auto simp: ThreadPool_resize_def split: owner.splits if_splits)
  then have "tl_errors s = []" using reg by (simp add: registry_inv_def)
  then have "finished s' = finished s \<and> (\<forall>i. errs_at s' i = errs_at s i)" using st Resize
    by (auto simp: ThreadPool_resize_def resize_def errs_at_def split: owner.splits if_splits)
  then show ?thesis using Resize by (intro exI[of _ "[]"]) (simp add: call_errors_def)
next
  case (Submit w)
  then have "finished s' = finished s \<and> tl_errors s' = tl_errors s" using st
    by (auto simp: DoWorkWithID_def split: if_splits)
  then show ?thesis using Submit by (intro exI[of _ "[]"]) (simp add: errs_at_def call_errors_def)
next
  case (Wait c)
  then have "c = False" using e by simp
  then have "s' = s" using st Wait by (auto simp: WaitForWork_def split: if_splits)
  then show ?thesis using Wait by (intro exI[of _ "[]"]) (simp add: call_errors_def)
next
  case Destroy_wait
  then have "finished s' = finished s \<and> tl_errors s' = tl_errors s" using st
    by (auto simp: destructor_wait_def WaitForWork_def split: if_splits)
  then show ?thesis using Destroy_wait
    by (intro exI[of _ "[]"]) (simp add: errs_at_def call_errors_def)
next
  case Destroy_stop
  then have "finished s' = finished s \<and> tl_errors s' = tl_errors s" using st
    by (auto simp: destructor_stop_def split: if_splits)
  then show ?thesis using Destroy_stop
    by (intro exI[of _ "[]"]) (simp add: errs_at_def call_errors_def)
next
  case Join
  then have "finished s' = finished s \<and> tl_errors s' = tl_errors s" using st
    by (auto simp: destructor_join_def split: owner.splits if_splits)
  then show ?thesis using Join by (intro exI[of _ "[]"]) (simp add: errs_at_def call_errors_def)
next
  case (Init j r)
  have t: "thread_at j s = Some Initializing" using st Init
    by (auto simp: ThreadMain_init_def split: if_splits)
  have "finished s' = finished s \<and> (\<forall>i. errs_at s' i = errs_at s i @ (if j = i then what r else []))"
  proof (cases r)
    case Returns
    then show ?thesis using st Init t by (auto simp: ThreadMain_init_def goto_def errs_at_def what_def)
  next
    case (Throws_runtime_error m)
    then have l: "j < length (tl_errors s)" using st Init t
      by (auto simp: ThreadMain_init_def push_error_def and_then_def split: if_splits)
    then have "s' = goto j Loop_head (s\<lparr>tl_errors := (tl_errors s)[j := tl_errors s ! j @ [m]]\<rparr>)"
      using st Init t Throws_runtime_error
      by (auto simp: ThreadMain_init_def push_error_def and_then_def)
    then show ?thesis using l Throws_runtime_error errs_at_push[OF l, of "[m]"]
      by (auto simp: goto_def errs_at_def what_def)
  next
    case Throws_other
    then have l: "j < length (tl_errors s)" using st Init t
      by (auto simp: ThreadMain_init_def push_error_def and_then_def split: if_splits)
    then have "s' = goto j Loop_head
        (s\<lparr>tl_errors := (tl_errors s)[j := tl_errors s ! j @ [''Caught unknown exception'']]\<rparr>)"
      using st Init t Throws_other
      by (auto simp: ThreadMain_init_def push_error_def and_then_def)
    then show ?thesis using l Throws_other
        errs_at_push[OF l, of "[''Caught unknown exception'']"]
      by (auto simp: goto_def errs_at_def what_def)
  qed
  then show ?thesis using Init by (intro exI[of _ "[]"]) (simp add: call_errors_def)
next
  case (Check j)
  then have "finished s' = finished s \<and> tl_errors s' = tl_errors s" using st
    by (auto simp: ThreadMain_check_def goto_def split: if_splits)
  then show ?thesis using Check by (intro exI[of _ "[]"]) (simp add: errs_at_def call_errors_def)
next
  case (Take j)
  then have "finished s' = finished s \<and> tl_errors s' = tl_errors s" using st
    by (auto simp: ThreadMain_take_def goto_def split: if_splits list.splits)
  then show ?thesis using Take by (intro exI[of _ "[]"]) (simp add: errs_at_def call_errors_def)
next
  case (Run j)
  then obtain w where t: "thread_at j s = Some (Executing w)" using st
    by (auto simp: ThreadMain_run_def split: option.splits thread.splits)
  then have j: "j < length (threads s)" and b: "busy (threads s ! j)"
    by (auto simp: thread_at_def split: if_splits)
  have l: "j < length (tl_errors s)" using busy_allocated[OF inv j b] .
  have s': "s' = s\<lparr>tl_errors := (tl_errors s)[j := tl_errors s ! j @ what (w (int j))],
                   finished := finished s @ [(j, w)],
                   threads := (threads s)[j := Completing]\<rparr>"
    using st Run t l
    by (cases "w (int j)")
      (auto simp: ThreadMain_run_def push_error_def and_then_def goto_def what_def)
  have "\<forall>i. errs_at s' i = errs_at s i @ call_errors [(j, w)] i"
    using s' l by (auto simp: errs_at_def call_errors_def nth_list_update)
  then show ?thesis using Run s' j by (intro exI[of _ "[(j, w)]"]) simp
next
  case (Complete j)
  then have "finished s' = finished s \<and> tl_errors s' = tl_errors s" using st
    by (auto simp: ThreadMain_complete_def goto_def Let_def split: if_splits)
  then show ?thesis using Complete
    by (intro exI[of _ "[]"]) (simp add: errs_at_def call_errors_def)
qed

lemma registry_inv_step:
  assumes inv: "pool_inv s" and reg: "registry_inv s" and st: "after (step e s) s'"
  shows "registry_inv s'"
proof -
  from inv have o: "owner_inv s" and f: "mset (finished s) + mset (in_flight s) = mset (started s)"
    and u: "map snd (started s) @ work_queue s = submitted s"
    and b: "length (filter busy (threads s)) \<le> length (started s)"
    by (simp_all add: pool_inv_def)
  from st show ?thesis
  proof (cases rule: step_cases)
    case (Init i r errs)
    show ?thesis
    proof (cases "\<exists>k. owner s = Constructing k")
      case False then show ?thesis using Init by (simp add: registry_inv_def)
    next
      case True
      then have "tl_errors s = []" using reg by (simp add: registry_inv_def)
      then show ?thesis using Init reg True by (simp add: registry_inv_def)
    qed
  next
    case (Run i w errs)
    have "0 < length (filter busy (threads s))" using Run busy_present[of i "threads s"] by simp
    then have "submitted s \<noteq> []" using b u by auto
    then have "\<not> (\<exists>k. owner s = Constructing k)" using o by (auto simp: owner_inv_def)
    then show ?thesis using Run by (simp add: registry_inv_def)
  qed (use reg in \<open>auto simp: registry_inv_def\<close>)
qed

lemma past_init_step:
  assumes inv: "pool_inv s" and st: "after (step e s) s'"
    and j: "j < length (threads s)"
    and t: "threads s ! j \<noteq> Not_started" "threads s ! j \<noteq> Initializing"
  shows "threads s' ! j \<noteq> Not_started \<and> threads s' ! j \<noteq> Initializing \<and> init_what j e = []"
proof -
  from inv have o: "owner_inv s" by (simp add: pool_inv_def)
  from st show ?thesis
  proof (cases rule: step_cases)
    case (Spawn k)
    then have "threads s ! k = Not_started" using o by (simp add: owner_inv_def)
    then have "k \<noteq> j" using t by auto
    then show ?thesis using Spawn t by simp
  next
    case (Init i r errs)
    then have "i \<noteq> j" using t by auto
    then show ?thesis using Init t by simp
  qed (use t j in \<open>auto simp: nth_list_update\<close>)
qed

lemma past_init:
  "pool_inv s \<Longrightarrow> exec es s = Next s' \<Longrightarrow> j < length (threads s) \<Longrightarrow>
   threads s ! j \<noteq> Not_started \<Longrightarrow> threads s ! j \<noteq> Initializing \<Longrightarrow>
   init_errors es j = []"
proof (induction es arbitrary: s)
  case Nil then show ?case by (simp add: init_errors_def)
next
  case (Cons e es)
  from Cons.prems(2) obtain s1 where a: "after (step e s) s1" and x: "exec es s1 = Next s'"
    by (cases "step e s") (auto simp: after_def)
  have p: "threads s1 ! j \<noteq> Not_started \<and> threads s1 ! j \<noteq> Initializing \<and> init_what j e = []"
    using past_init_step[OF Cons.prems(1) a Cons.prems(3,4,5)] .
  have l: "j < length (threads s1)" using threads_length_step[OF a] Cons.prems(3) by simp
  have "init_errors es j = []"
    using Cons.IH[OF pool_inv_step[OF Cons.prems(1) a] x l] p by simp
  then show ?case using p by (simp add: init_errors_def)
qed

lemma call_errors_append: "call_errors (xs @ ys) i = call_errors xs i @ call_errors ys i"
  by (simp add: call_errors_def)

lemma call_errors_other:
  "\<forall>(j, w)\<in>set calls. j \<noteq> i \<Longrightarrow> call_errors calls i = []"
  by (induction calls) (auto simp: call_errors_def)

lemma registry_of_calls_from:
  "pool_inv s0 \<Longrightarrow> registry_inv s0 \<Longrightarrow> exec es s0 = Next s \<Longrightarrow> Wait True \<notin> set es \<Longrightarrow>
   \<exists>calls. finished s = finished s0 @ calls \<and>
     (\<forall>i. errs_at s i = errs_at s0 i @ init_errors es i @ call_errors calls i)"
proof (induction es arbitrary: s0)
  case Nil
  then show ?case by (intro exI[of _ "[]"]) (simp add: init_errors_def call_errors_def)
next
  case (Cons e es)
  have ne: "e \<noteq> Wait True" using Cons.prems(4) by auto
  from Cons.prems(3) ne obtain s1 where st: "step e s0 = Next s1" and x: "exec es s1 = Next s"
    by (cases "step e s0") (auto dest: step_raises)
  have a: "after (step e s0) s1" using st by (simp add: after_def)
  have inv1: "pool_inv s1" using pool_inv_step[OF Cons.prems(1) a] .
  have reg1: "registry_inv s1" using registry_inv_step[OF Cons.prems(1,2) a] .
  from step_registry[OF Cons.prems(1,2) st ne] obtain c1 where
    f1: "finished s1 = finished s0 @ c1"
    and e1: "\<forall>i. errs_at s1 i = errs_at s0 i @ init_what i e @ call_errors c1 i"
    and t1: "\<forall>j w. (j, w) \<in> set c1 \<longrightarrow> j < length (threads s1) \<and> threads s1 ! j = Completing"
    by blast
  from Cons.IH[OF inv1 reg1 x] Cons.prems(4) obtain c2 where
    f2: "finished s = finished s1 @ c2"
    and e2: "\<forall>i. errs_at s i = errs_at s1 i @ init_errors es i @ call_errors c2 i"
    by auto
  have sw: "call_errors c1 i @ init_errors es i = init_errors es i @ call_errors c1 i" for i
  proof (cases "\<exists>w. (i, w) \<in> set c1")
    case True
    then have "i < length (threads s1) \<and> threads s1 ! i = Completing" using t1 by blast
    then have "init_errors es i = []" using past_init[OF inv1 x, of i] by simp
    then show ?thesis by simp
  next
    case False
    then have "call_errors c1 i = []" by (intro call_errors_other) auto
    then show ?thesis by simp
  qed
  have "errs_at s i = errs_at s0 i @ init_errors (e # es) i @ call_errors (c1 @ c2) i" for i
  proof -
    have "errs_at s i =
            errs_at s0 i @ init_what i e @ (call_errors c1 i @ init_errors es i) @ call_errors c2 i"
      using e1 e2 by simp
    then show ?thesis using sw[of i] by (simp add: init_errors_def call_errors_append)
  qed
  then show ?case using f1 f2 by (intro exI[of _ "c1 @ c2"]) simp
qed

lemma registry_of_calls:
  assumes "from_new num_thread device_id set_affinity es = Next s" and "Wait True \<notin> set es"
  shows "errs_at s i = init_errors es i @ call_errors (finished s) i"
proof -
  from assms(1) obtain s0 where n: "ThreadPool num_thread device_id set_affinity = Inr s0"
    and e: "exec es s0 = Next s"
    by (auto simp: from_new_def split: sum.splits)
  have z: "tl_errors s0 = [] \<and> finished s0 = []" using n
    by (auto simp: ThreadPool_def split: if_splits)
  then have "registry_inv s0" by (simp add: registry_inv_def)
  from registry_of_calls_from[OF pool_inv_new[OF n] this e assms(2)] z
  show ?thesis by (auto simp: errs_at_def)
qed

section \<open>The waits and notifications, case by case\<close>

lemma lift_after: "cv_after (lift r c) (s', c') \<longleftrightarrow> after r s' \<and> c' = c"
  by (cases r) (auto simp: lift_def cv_after_def after_def)

lemma cv_step_cases [consumes 1, case_names Notify_wake Notify_none Sleep Doze Lifted Wake Wake_destructor]:
  assumes "cv_after (cv_step e (s, c)) (s', c')"
  obtains
    j where "e = Notify_one j" "unsignalled c \<noteq> 0" "j < length (asleep c)" "asleep c ! j"
      "s' = s" "c' = c\<lparr>asleep := (asleep c)[j := False], unsignalled := unsignalled c - 1\<rparr>"
  | j where "e = Notify_one j" "unsignalled c \<noteq> 0" "True \<notin> set (asleep c)"
      "s' = s" "c' = c\<lparr>unsignalled := unsignalled c - 1\<rparr>"
  | i where "e = Pool (Take i)" "i < length (threads s)" "threads s ! i = Waiting"
      "running s" "work_queue s = []" "\<not> (i < length (asleep c) \<and> asleep c ! i)"
      "s' = s" "c' = c\<lparr>asleep := (asleep c)[i := True]\<rparr>"
  | "e = Pool Destroy_wait" "owner s = Alive" "\<not> work_complete s" "unsignalled c = 0"
      "\<not> dozing c" "s' = s" "c' = c\<lparr>dozing := True\<rparr>"
  | e0 where "e = Pool e0" "after (step e0 s) s'" "waiters_allow e0 c"
      "c' = waiters_after e0 s' c"
  | j where "e = Spurious j" "j < length (asleep c)" "asleep c ! j"
      "s' = s" "c' = c\<lparr>asleep := (asleep c)[j := False]\<rparr>"
  | "e = Spurious_destructor" "dozing c" "s' = s" "c' = c\<lparr>dozing := False\<rparr>"
proof (cases e)
  case (Spurious j)
  then show ?thesis using assms that(6)[of j] by (auto simp: cv_after_def split: if_splits)
next
  case Spurious_destructor
  then show ?thesis using assms that(7) by (auto simp: cv_after_def split: if_splits)
next
  case (Notify_one j)
  then show ?thesis using assms that(1)[of j] that(2)[of j]
    by (auto simp: cv_after_def split: if_splits)
next
  case (Pool e0)
  show ?thesis
  proof (cases e0)
    case (Take i)
    show ?thesis
    proof (cases "thread_at i s = Some Waiting \<and> running s \<and> work_queue s = []")
      case True
      then show ?thesis using assms Pool Take that(3)[of i]
        by (auto simp: cv_after_def thread_at_def split: if_splits)
    next
      case False
      have g: "\<not> (i < length (asleep c) \<and> asleep c ! i)" using assms Pool Take
        by (auto simp: cv_after_def split: if_splits)
      then have "cv_after (lift (step (Take i) s) c) (s', c')" using assms Pool Take False
        by auto
      then show ?thesis using that(5)[of e0] Take Pool g by (simp add: lift_after)
    qed
  next
    case Destroy_wait
    show ?thesis
    proof (cases "owner s = Alive \<and> \<not> work_complete s")
      case True
      then show ?thesis using assms Pool Destroy_wait that(4)
        by (auto simp: cv_after_def split: if_splits)
    next
      case False
      have g: "unsignalled c = 0 \<and> \<not> dozing c" using assms Pool Destroy_wait
        by (auto simp: cv_after_def split: if_splits)
      then have "cv_after (lift (step Destroy_wait s) c) (s', c')"
        using assms Pool Destroy_wait False by auto
      then show ?thesis using that(5)[of e0] Destroy_wait Pool g by (simp add: lift_after)
    qed
  next
    case (Complete i)
    have nr: "step (Complete i) s \<noteq> Raised m t" for m t using step_raises by fastforce
    show ?thesis using assms Pool Complete that(5)[of e0] nr
      by (cases "step (Complete i) s") (auto simp: cv_after_def after_def lift_def)
  next
    case (Wait b)
    have g: "\<not> dozing c" using assms Pool Wait by (auto simp: cv_after_def split: if_splits)
    then have "cv_after (lift (step (Wait b) s) c) (s', c')" using assms Pool Wait by auto
    then show ?thesis using that(5)[of e0] Wait Pool g by (simp add: lift_after)
  qed (use assms Pool that(5)[of e0] in \<open>auto simp: lift_after\<close>)
qed

section \<open>The invariant of the blocked threads\<close>

lemma none_asleep: "True \<notin> set as \<Longrightarrow> i < length as \<Longrightarrow> \<not> as ! i"
  using nth_mem by fastforce

lemma waiters_inv_step:
  assumes inv: "pool_inv s" and w: "waiters_inv s c"
    and st: "cv_after (cv_step e (s, c)) (s', c')"
  shows "waiters_inv s' c'"
proof -
  from inv have
    i1: "work_complete s = (work_queue s = [] \<and> active_threads s = 0)" and
    i4: "owner_inv s" and
    i7: "threads s \<noteq> []"
    by (simp_all add: pool_inv_def)
  from w have
    k1: "length (asleep c) = length (threads s)" and
    k2: "\<forall>i<length (threads s). asleep c ! i \<longrightarrow> threads s ! i = Waiting" and
    k3: "\<not> running s \<longrightarrow> (\<forall>i<length (threads s). \<not> asleep c ! i)" and
    k4: "work_queue s \<noteq> [] \<longrightarrow>
           unsignalled c \<noteq> 0 \<or> (\<exists>i<length (threads s). \<not> asleep c ! i)" and
    k5: "dozing c \<longrightarrow> owner s = Alive \<and> \<not> work_complete s"
    by (simp_all add: waiters_inv_def)
  have z: "0 < length (threads s)" using i7 by simp
  from st show ?thesis
  proof (cases rule: cv_step_cases)
    case (Notify_wake j)
    have "\<exists>i<length (threads s). \<not> (asleep c)[j := False] ! i"
      using Notify_wake k1 by (intro exI[of _ j]) simp
    then show ?thesis using Notify_wake k1 k2 k3 k5
      by (auto simp: waiters_inv_def nth_list_update)
  next
    case (Notify_none j)
    have "\<exists>i<length (threads s). \<not> asleep c ! i"
      using Notify_none z k1 none_asleep[of "asleep c" 0] by (intro exI[of _ 0]) simp
    then show ?thesis using Notify_none k1 k2 k3 k5 by (auto simp: waiters_inv_def)
  next
    case (Sleep i)
    then show ?thesis using k1 k2 k3 k5 by (auto simp: waiters_inv_def nth_list_update)
  next
    case Doze
    then show ?thesis using k1 k2 k3 k4 by (auto simp: waiters_inv_def)
  next
    case (Wake j)
    have "\<exists>i<length (threads s). \<not> (asleep c)[j := False] ! i"
      using Wake k1 by (intro exI[of _ j]) simp
    then show ?thesis using Wake k1 k2 k3 k5
      by (auto simp: waiters_inv_def nth_list_update)
  next
    case Wake_destructor
    then show ?thesis using k1 k2 k3 k4 by (auto simp: waiters_inv_def)
  next
    case (Lifted e0)
    from Lifted(2) show ?thesis
    proof (cases rule: step_cases)
      case (Spawn k)
      have "threads s ! k = Not_started" using i4 Spawn by (simp add: owner_inv_def)
      then have "\<not> asleep c ! k" using k2 Spawn by auto
      then show ?thesis using Spawn Lifted k1 k2 k3 k4 k5
        by (auto simp: waiters_inv_def nth_list_update)
    next
      case (Resize k)
      then show ?thesis using Lifted k1 k2 k3 k4 k5 by (auto simp: waiters_inv_def)
    next
      case (Submit x)
      then show ?thesis using Lifted k1 k2 k3 k5 by (auto simp: waiters_inv_def)
    next
      case (Wait b errs)
      then show ?thesis using Lifted k1 k2 k3 k4 k5 by (auto simp: waiters_inv_def)
    next
      case Destroy_wait
      then show ?thesis using Lifted k1 k2 k3 k4 k5 by (auto simp: waiters_inv_def)
    next
      case Destroy_stop
      then show ?thesis using Lifted k1 k5 z by (auto simp: waiters_inv_def)
    next
      case (Join k)
      then show ?thesis using Lifted k1 k2 k3 k4 k5 by (auto simp: waiters_inv_def)
    next
      case (Joined k)
      then show ?thesis using Lifted k1 k2 k3 k4 k5 by (auto simp: waiters_inv_def)
    next
      case (Init i r errs)
      then have "\<not> asleep c ! i" using k2 by auto
      then show ?thesis using Init Lifted k1 k2 k3 k4 k5
        by (auto simp: waiters_inv_def nth_list_update)
    next
      case (Check_run i)
      then have "\<not> asleep c ! i" using k2 by auto
      then show ?thesis using Check_run Lifted k1 k2 k3 k4 k5
        by (auto simp: waiters_inv_def nth_list_update)
    next
      case (Check_exit i)
      then have "\<not> asleep c ! i" using k2 by auto
      then show ?thesis using Check_exit Lifted k1 k2 k3 k4 k5
        by (auto simp: waiters_inv_def nth_list_update)
    next
      case (Take_exit i)
      then have "\<not> asleep c ! i" using k3 by auto
      then show ?thesis using Take_exit Lifted k1 k2 k3 k4 k5
        by (auto simp: waiters_inv_def nth_list_update)
    next
      case (Take_work i x rest)
      have a: "\<not> asleep c ! i" using Take_work Lifted k1 by simp
      then have "\<exists>j<length (threads s). \<not> asleep c ! j" using Take_work by blast
      then show ?thesis using Take_work Lifted a k1 k2 k3 k5 i1
        by (auto simp: waiters_inv_def nth_list_update)
    next
      case (Run i x errs)
      then have "\<not> asleep c ! i" using k2 by auto
      then show ?thesis using Run Lifted k1 k2 k3 k4 k5
        by (auto simp: waiters_inv_def nth_list_update)
    next
      case (Complete i)
      then have "\<not> asleep c ! i" using k2 by auto
      then show ?thesis using Complete Lifted k1 k2 k3 k4 k5
        by (auto simp: waiters_inv_def nth_list_update)
    qed
  qed
qed

lemma cv_pool_step:
  assumes "cv_after (cv_step e (s, c)) (s', c')"
  shows "s' = s \<or> (\<exists>e0. e = Pool e0 \<and> after (step e0 s) s')"
  using assms by (cases rule: cv_step_cases) auto

lemma cv_inv_step:
  assumes "cv_inv x" and "cv_after (cv_step e x) x'"
  shows "cv_inv x'"
proof -
  obtain s c s' c' where x: "x = (s, c)" "x' = (s', c')" by (cases x, cases x') auto
  have p: "pool_inv s" and w: "waiters_inv s c" using assms(1) x by (simp_all add: cv_inv_def)
  have st: "cv_after (cv_step e (s, c)) (s', c')" using assms(2) x by simp
  have "pool_inv s'" using cv_pool_step[OF st] p pool_inv_step by auto
  moreover have "waiters_inv s' c'" using waiters_inv_step[OF p w st] .
  ultimately show ?thesis using x by (simp add: cv_inv_def)
qed

lemma cv_inv_exec:
  "cv_inv x \<Longrightarrow> cv_exec es x = Next x' \<Longrightarrow> cv_inv x'"
proof (induction es arbitrary: x)
  case Nil then show ?case by simp
next
  case (Cons e es)
  from Cons.prems(2) obtain x1 where a: "cv_after (cv_step e x) x1" and r: "cv_exec es x1 = Next x'"
    by (cases "cv_step e x") (auto simp: cv_after_def)
  show ?case using Cons.IH[OF cv_inv_step[OF Cons.prems(1) a] r] .
qed

lemma cv_inv_from_new:
  assumes "cv_from_new num_thread device_id set_affinity es = Next x"
  shows "cv_inv x"
proof -
  from assms obtain s0 where n: "ThreadPool num_thread device_id set_affinity = Inr s0"
    and e: "cv_exec es (s0, \<lparr>asleep = replicate (length (threads s0)) False,
                          unsignalled = 0, dozing = False\<rparr>) = Next x"
    by (auto simp: cv_from_new_def split: sum.splits)
  have "work_queue s0 = []" using n by (auto simp: ThreadPool_def split: if_splits)
  then have "cv_inv (s0, \<lparr>asleep = replicate (length (threads s0)) False,
                          unsignalled = 0, dozing = False\<rparr>)"
    using pool_inv_new[OF n] by (simp add: cv_inv_def waiters_inv_def)
  then show ?thesis using e by (rule cv_inv_exec)
qed

section \<open>No wake-up is missing\<close>

lemma awake_waiting_le: "awake_waiting ts as \<le> length ts"
  by (induction ts as rule: awake_waiting.induct) auto

lemma awake_waiting_wake:
  "awake_waiting ts (as[j := False]) \<le> Suc (awake_waiting ts as)"
proof (induction ts as arbitrary: j rule: awake_waiting.induct)
  case (1 t ts a as)
  show ?case
  proof (cases j)
    case 0 then show ?thesis by simp
  next
    case (Suc k) then show ?thesis using "1.IH"[of k] by simp
  qed
qed simp_all

lemma awake_waiting_sleep:
  "i < length ts \<Longrightarrow> length as = length ts \<Longrightarrow> ts ! i = Waiting \<Longrightarrow> \<not> as ! i \<Longrightarrow>
   Suc (awake_waiting ts (as[i := True])) = awake_waiting ts as"
proof (induction ts as arbitrary: i rule: awake_waiting.induct)
  case (1 t ts a as)
  show ?case
  proof (cases i)
    case 0 then show ?thesis using "1.prems" by simp
  next
    case (Suc k) then show ?thesis using "1.IH"[of k] "1.prems" by simp
  qed
qed simp_all

lemma unsignalled_after:
  "\<not> client_call e0 \<Longrightarrow> unsignalled (waiters_after e0 s' c) = unsignalled c"
  by (cases e0) auto

lemma cv_step_decreases:
  assumes inv: "cv_inv (s, c)" and st: "cv_after (cv_step e (s, c)) (s', c')"
    and nc: "\<not> cv_client e"
  shows "cv_remaining (s', c') < cv_remaining (s, c)"
proof -
  from inv have p: "pool_inv s" and w: "waiters_inv s c" by (simp_all add: cv_inv_def)
  from w have k1: "length (asleep c) = length (threads s)" by (simp add: waiters_inv_def)
  from st show ?thesis
  proof (cases rule: cv_step_cases)
    case (Notify_wake j)
    then show ?thesis using awake_waiting_wake[of "threads s" "asleep c" j]
      by (simp add: cv_remaining_def)
  next
    case (Notify_none j)
    then show ?thesis by (simp add: cv_remaining_def)
  next
    case (Sleep i)
    then show ?thesis using awake_waiting_sleep[of i "threads s" "asleep c"] k1
      by (simp add: cv_remaining_def)
  next
    case Doze
    then show ?thesis by (simp add: cv_remaining_def)
  next
    case (Wake j) with nc show ?thesis by simp
  next
    case Wake_destructor with nc show ?thesis by simp
  next
    case (Lifted e0)
    have c0: "\<not> client_call e0" using nc Lifted by simp
    have r: "Suc (remaining s') \<le> remaining s" using step_decreases[OF p Lifted(2) c0] by simp
    have l: "length (threads s') = length (threads s)" using threads_length_step[OF Lifted(2)] .
    have u: "unsignalled c' = unsignalled c" using unsignalled_after[OF c0] Lifted by simp
    have a: "awake_waiting (threads s') (asleep c') \<le> length (threads s)"
      using awake_waiting_le[of "threads s'" "asleep c'"] l by simp
    have "(length (threads s) + 2) * Suc (remaining s') \<le> (length (threads s) + 2) * remaining s"
      using r by (rule mult_le_mono2)
    then have "(length (threads s) + 2) * remaining s' + (length (threads s) + 2) \<le>
               (length (threads s) + 2) * remaining s" by simp
    then show ?thesis using l u a by (simp add: cv_remaining_def)
  qed
qed

lemma cv_worker_step_possible:
  assumes p: "pool_inv s" and i: "i < length (threads s)"
    and t: "threads s ! i \<noteq> Not_started" "threads s ! i \<noteq> Exited"
    and a: "\<not> (i < length (asleep c) \<and> asleep c ! i)"
    and l: "threads s ! i = Initializing \<longrightarrow> i < length (tl_errors s)"
  shows "\<exists>e x'. \<not> cv_client e \<and> cv_step e (s, c) = Next x' \<and> submitted (fst x') = submitted s"
proof (cases "threads s ! i")
  case Not_started with t show ?thesis by simp
next
  case Exited with t show ?thesis by simp
next
  case Initializing
  have "cv_step (Pool (Init i Returns)) (s, c) = Next (goto i Loop_head s, c)"
    using i Initializing by (simp add: ThreadMain_init_def thread_at_def lift_def)
  moreover have "submitted (goto i Loop_head s) = submitted s" by (simp add: goto_def)
  ultimately show ?thesis by (intro exI[of _ "Pool (Init i Returns)"] exI) auto
next
  case Loop_head
  have "\<exists>x'. cv_step (Pool (Check i)) (s, c) = Next x' \<and> submitted (fst x') = submitted s"
    using i Loop_head by (simp add: ThreadMain_check_def thread_at_def lift_def goto_def)
  then show ?thesis by (intro exI[of _ "Pool (Check i)"]) auto
next
  case Waiting
  have "\<exists>x'. cv_step (Pool (Take i)) (s, c) = Next x' \<and> submitted (fst x') = submitted s"
    using i Waiting a
    by (auto simp: ThreadMain_take_def thread_at_def lift_def goto_def split: list.splits)
  then show ?thesis by (intro exI[of _ "Pool (Take i)"]) auto
next
  case (Executing x)
  have "i < length (tl_errors s)" using busy_allocated[OF p i] Executing by simp
  then have "\<exists>x'. cv_step (Pool (Run i)) (s, c) = Next x' \<and> submitted (fst x') = submitted s"
    using i Executing
    by (cases "x (int i)")
      (auto simp: ThreadMain_run_def thread_at_def push_error_def and_then_def goto_def lift_def)
  then show ?thesis by (intro exI[of _ "Pool (Run i)"]) auto
next
  case Completing
  have "\<exists>x'. cv_step (Pool (Complete i)) (s, c) = Next x' \<and> submitted (fst x') = submitted s"
    using i Completing
    by (auto simp: ThreadMain_complete_def thread_at_def goto_def Let_def)
  then show ?thesis by (intro exI[of _ "Pool (Complete i)"]) auto
qed

lemma cv_step_possible:
  assumes inv: "cv_inv (s, c)" and o: "owner s \<noteq> Destroyed"
  shows "\<exists>e x'. \<not> cv_client e \<and> cv_step e (s, c) = Next x' \<and> submitted (fst x') = submitted s"
proof -
  from inv have p: "pool_inv s" and w: "waiters_inv s c" by (simp_all add: cv_inv_def)
  from p have
    i1: "work_complete s = (work_queue s = [] \<and> active_threads s = 0)" and
    i2: "active_threads s = int (length (filter busy (threads s)))" and
    i4: "owner_inv s" and
    i7: "threads s \<noteq> []" and
    i8: "running s \<longrightarrow> (\<forall>j<length (threads s). threads s ! j \<noteq> Exited)"
    by (simp_all add: pool_inv_def)
  from w have
    k1: "length (asleep c) = length (threads s)" and
    k2: "\<forall>i<length (threads s). asleep c ! i \<longrightarrow> threads s ! i = Waiting" and
    k3: "\<not> running s \<longrightarrow> (\<forall>i<length (threads s). \<not> asleep c ! i)" and
    k4: "work_queue s \<noteq> [] \<longrightarrow>
           unsignalled c \<noteq> 0 \<or> (\<exists>i<length (threads s). \<not> asleep c ! i)" and
    k5: "dozing c \<longrightarrow> owner s = Alive \<and> \<not> work_complete s"
    by (simp_all add: waiters_inv_def)
  show ?thesis
  proof (cases "owner s")
    case (Constructing k)
    show ?thesis
    proof (cases "k < length (threads s)")
      case True
      have "cv_step (Pool Spawn) (s, c) =
              Next (s\<lparr>threads := (threads s)[k := Initializing],
                       owner := owner.Constructing (k + 1)\<rparr>, c)"
        using Constructing True by (simp add: ThreadPool_spawn_def lift_def)
      then show ?thesis by (intro exI[of _ "Pool Spawn"] exI) auto
    next
      case False
      have "cv_step (Pool Resize) (s, c) =
              Next (s\<lparr>tl_errors := resize (length (threads s)) (tl_errors s), owner := Alive\<rparr>, c)"
        using Constructing False by (simp add: ThreadPool_resize_def lift_def)
      then show ?thesis by (intro exI[of _ "Pool Resize"] exI) auto
    qed
  next
    case Alive
    have l: "length (tl_errors s) = length (threads s)"
      and ns: "\<forall>j<length (threads s). threads s ! j \<noteq> Not_started"
      and r: "running s"
      using i4 Alive by (simp_all add: owner_inv_def)
    show ?thesis
    proof (cases "unsignalled c = 0")
      case False
      show ?thesis
      proof (cases "True \<in> set (asleep c)")
        case True
        then obtain j where "j < length (asleep c)" "asleep c ! j"
          by (auto simp: in_set_conv_nth)
        then have "cv_step (Notify_one j) (s, c) =
            Next (s, c\<lparr>asleep := (asleep c)[j := False], unsignalled := unsignalled c - 1\<rparr>)"
          using False True by simp
        then show ?thesis by (intro exI[of _ "Notify_one j"] exI) auto
      next
        case n: False
        then have "cv_step (Notify_one 0) (s, c) = Next (s, c\<lparr>unsignalled := unsignalled c - 1\<rparr>)"
          using False by simp
        then show ?thesis by (intro exI[of _ "Notify_one 0"] exI) auto
      qed
    next
      case u: True
      show ?thesis
      proof (cases "dozing c")
        case False
        have "\<exists>x'. cv_step (Pool Destroy_wait) (s, c) = Next x' \<and> submitted (fst x') = submitted s"
          using u False Alive
          by (auto simp: destructor_wait_def WaitForWork_def lift_def)
        then show ?thesis by (intro exI[of _ "Pool Destroy_wait"]) auto
      next
        case True
        then have nwc: "\<not> work_complete s" using k5 by simp
        show ?thesis
        proof (cases "filter busy (threads s) = []")
          case False
          then obtain i where i: "i < length (threads s)" and b: "busy (threads s ! i)"
            by (auto simp: filter_empty_conv in_set_conv_nth)
          then have "threads s ! i \<noteq> Waiting" "threads s ! i \<noteq> Initializing"
            "threads s ! i \<noteq> Not_started" "threads s ! i \<noteq> Exited" by auto
          then show ?thesis using cv_worker_step_possible[OF p i, of c] k2 i by auto
        next
          case nb: True
          then have "work_queue s \<noteq> []" using nwc i1 i2 by simp
          then obtain i where i: "i < length (threads s)" and a: "\<not> asleep c ! i"
            using k4 u by auto
          show ?thesis using cv_worker_step_possible[OF p i, of c] ns r i8 i a l by auto
        qed
      qed
    qed
  next
    case Stopping
    have "cv_step (Pool Destroy_stop) (s, c) =
            Next (s\<lparr>running := False, owner := Joining 0\<rparr>,
                  c\<lparr>asleep := map (\<lambda>a. False) (asleep c)\<rparr>)"
      using Stopping by (simp add: destructor_stop_def lift_def)
    then show ?thesis by (intro exI[of _ "Pool Destroy_stop"] exI) auto
  next
    case (Joining k)
    have l: "length (tl_errors s) = length (threads s)"
      and ns: "\<forall>j<length (threads s). threads s ! j \<noteq> Not_started"
      and r: "\<not> running s"
      using i4 Joining by (simp_all add: owner_inv_def)
    show ?thesis
    proof (cases "k < length (threads s) \<and> threads s ! k \<noteq> Exited")
      case False
      then have "\<exists>x'. cv_step (Pool Join) (s, c) = Next x' \<and> submitted (fst x') = submitted s"
        using Joining by (auto simp: destructor_join_def lift_def)
      then show ?thesis by (intro exI[of _ "Pool Join"]) auto
    next
      case True
      then show ?thesis using cv_worker_step_possible[OF p, of k c] ns r k3 l by auto
    qed
  next
    case Destroyed with o show ?thesis by simp
  qed
qed

lemma cv_destruction_possible:
  "cv_inv x \<Longrightarrow>
   \<exists>es x'. cv_exec es x = Next x' \<and> owner (fst x') = Destroyed \<and>
            submitted (fst x') = submitted (fst x)"
proof (induction "cv_remaining x" arbitrary: x rule: less_induct)
  case less
  obtain s c where x: "x = (s, c)" by (cases x)
  show ?case
  proof (cases "owner s = Destroyed")
    case True
    then have "cv_exec [] x = Next x \<and> owner (fst x) = Destroyed" using x by simp
    then show ?thesis by blast
  next
    case False
    from cv_step_possible[OF _ False, of c] less.prems x obtain e x1 where
      nc: "\<not> cv_client e" and st: "cv_step e x = Next x1"
      and u: "submitted (fst x1) = submitted (fst x)" by auto
    have a: "cv_after (cv_step e x) x1" using st by (simp add: cv_after_def)
    have inv1: "cv_inv x1" using cv_inv_step[OF less.prems a] .
    obtain s1 c1 where x1: "x1 = (s1, c1)" by (cases x1)
    have m: "cv_remaining x1 < cv_remaining x"
      using cv_step_decreases[of s c e s1 c1] less.prems a nc x x1 by simp
    from less.hyps[OF m inv1] obtain es x' where
      "cv_exec es x1 = Next x'" "owner (fst x') = Destroyed"
      "submitted (fst x') = submitted (fst x1)" by blast
    then have "cv_exec (e # es) x = Next x' \<and> owner (fst x') = Destroyed \<and>
               submitted (fst x') = submitted (fst x)"
      using st u by simp
    then show ?thesis by blast
  qed
qed

section \<open>Executions with waits are executions of the steps\<close>

lemma step_not_blocks: "after (step e s) s' \<Longrightarrow> \<not> blocks e s"
  by (cases e)
    (auto simp: after_def ThreadMain_take_def destructor_wait_def WaitForWork_def
      split: if_splits)

lemma performed_step:
  assumes "cv_after (cv_step e (s, c)) (s', c')"
  shows "(performed e s = [] \<and> s' = s) \<or> (\<exists>e0. e = Pool e0 \<and> performed e s = [e0] \<and>
           after (step e0 s) s')"
  using assms
proof (cases rule: cv_step_cases)
  case (Sleep i) then show ?thesis by (simp add: thread_at_def)
next
  case (Lifted e0) then show ?thesis using step_not_blocks[of e0 s s'] by simp
qed simp_all

lemma pool_events_exec:
  "cv_exec es x = Next x' \<Longrightarrow> exec (pool_events es x) (fst x) = Next (fst x')"
proof (induction es arbitrary: x)
  case Nil then show ?case by simp
next
  case (Cons e es)
  obtain s c where x: "x = (s, c)" by (cases x)
  from Cons.prems obtain x1 where a: "cv_after (cv_step e x) x1" and r: "cv_exec es x1 = Next x'"
    by (cases "cv_step e x") (auto simp: cv_after_def)
  obtain s1 c1 where x1: "x1 = (s1, c1)" by (cases x1)
  have ih: "exec (pool_events es x1) s1 = Next (fst x')" using Cons.IH[OF r] x1 by simp
  have pe: "pool_events (e # es) x = performed e s @ pool_events es x1"
    using a x by (cases "cv_step e x") (auto simp: cv_after_def)
  from performed_step[of e s c s1 c1] a x x1
  consider "performed e s = []" "s1 = s"
    | e0 where "performed e s = [e0]" "after (step e0 s) s1" by auto
  then show ?case
  proof cases
    case 1 then show ?thesis using pe ih x by simp
  next
    case 2
    then have "exec (e0 # pool_events es x1) s = exec (pool_events es x1) s1"
      by (cases "step e0 s") (auto simp: after_def)
    then show ?thesis using 2 pe ih x by simp
  qed
qed

lemma pool_events_subset: "e0 \<in> set (pool_events es x) \<Longrightarrow> Pool e0 \<in> set es"
proof (induction es arbitrary: x)
  case Nil then show ?case by simp
next
  case (Cons e es)
  have "e0 \<in> set (performed e (fst x)) \<Longrightarrow> e = Pool e0"
    by (cases e) (auto split: if_splits)
  then show ?case using Cons
    by (cases "cv_step e x") (auto split: if_splits)
qed

lemma blocks_init_what: "blocks e0 s \<Longrightarrow> init_what i e0 = []"
  by (cases e0) auto

lemma pool_events_init:
  "cv_exec es x = Next x' \<Longrightarrow> init_errors (pool_events es x) i = cv_init_errors es i"
proof (induction es arbitrary: x)
  case Nil then show ?case by (simp add: init_errors_def cv_init_errors_def)
next
  case (Cons e es)
  from Cons.prems obtain x1 where a: "cv_after (cv_step e x) x1" and r: "cv_exec es x1 = Next x'"
    by (cases "cv_step e x") (auto simp: cv_after_def)
  have pe: "pool_events (e # es) x = performed e (fst x) @ pool_events es x1"
    using a by (cases "cv_step e x") (auto simp: cv_after_def)
  have "concat (map (init_what i) (performed e (fst x))) = cv_init_what i e"
    by (cases e) (auto simp: blocks_init_what)
  then show ?case using Cons.IH[OF r] pe by (simp add: init_errors_def cv_init_errors_def)
qed

lemma cv_to_pool:
  assumes "cv_from_new num_thread device_id set_affinity es = Next (s, c)"
  shows "\<exists>es0. from_new num_thread device_id set_affinity es0 = Next s \<and>
           (\<forall>e0\<in>set es0. Pool e0 \<in> set es) \<and>
           (\<forall>i. init_errors es0 i = cv_init_errors es i)"
proof -
  from assms obtain s0 where n: "ThreadPool num_thread device_id set_affinity = Inr s0"
    and e: "cv_exec es (s0, \<lparr>asleep = replicate (length (threads s0)) False,
                          unsignalled = 0, dozing = False\<rparr>) = Next (s, c)"
    by (auto simp: cv_from_new_def split: sum.splits)
  let ?x = "(s0, \<lparr>asleep = replicate (length (threads s0)) False,
                          unsignalled = 0, dozing = False\<rparr>)"
  have "from_new num_thread device_id set_affinity (pool_events es ?x) = Next s"
    using pool_events_exec[OF e] n by (simp add: from_new_def)
  moreover have "\<forall>e0\<in>set (pool_events es ?x). Pool e0 \<in> set es"
    using pool_events_subset by blast
  moreover have "\<forall>i. init_errors (pool_events es ?x) i = cv_init_errors es i"
    using pool_events_init[OF e] by simp
  ultimately show ?thesis by blast
qed

lemma cv_registry_of_calls:
  assumes "cv_from_new num_thread device_id set_affinity es = Next (s, c)"
    and "Pool (Wait True) \<notin> set es"
  shows "errs_at s i = cv_init_errors es i @ call_errors (finished s) i"
proof -
  from cv_to_pool[OF assms(1)] obtain es0 where
    f: "from_new num_thread device_id set_affinity es0 = Next s"
    and sub: "\<forall>e0\<in>set es0. Pool e0 \<in> set es"
    and ini: "\<forall>i. init_errors es0 i = cv_init_errors es i" by blast
  have "Wait True \<notin> set es0" using sub assms(2) by blast
  from registry_of_calls[OF f this, of i] ini show ?thesis by simp
qed

lemma in_flight_kept:
  assumes "pool_inv s" and "after (step e s) s'" and "i < length (threads s)"
    and "threads s ! i = Executing w"
  shows "threads s' ! i = Executing w \<or> e = Run i"
proof -
  from assms(1) have o: "owner_inv s" by (simp add: pool_inv_def)
  from assms(2) show ?thesis
  proof (cases rule: step_cases)
    case (Spawn k)
    then have "threads s ! k = Not_started" using o by (simp add: owner_inv_def)
    then have "k \<noteq> i" using assms(4) by auto
    then show ?thesis using Spawn assms(4) by simp
  qed (use assms(3,4) in \<open>auto simp: nth_list_update split: if_splits\<close>)
qed

lemma cv_in_flight_kept:
  assumes "pool_inv s" and "cv_after (cv_step e (s, c)) (s', c')" and "i < length (threads s)"
    and "threads s ! i = Executing w"
  shows "threads s' ! i = Executing w \<or> e = Pool (Run i)"
  using cv_pool_step[OF assms(2)] in_flight_kept[OF assms(1) _ assms(3,4)] assms(4) by auto

lemma finished_step:
  assumes "after (step e s) s'"
  shows "finished s' = finished s \<or> (\<exists>i. e = Run i)"
  using assms by (cases rule: step_cases) simp_all

lemma cv_finished_step:
  assumes "cv_after (cv_step e (s, c)) (s', c')"
  shows "finished s' = finished s \<or> (\<exists>i. e = Pool (Run i))"
  using cv_pool_step[OF assms] finished_step by auto

section \<open>The completion flag\<close>

text \<open>
  C1. In every execution, after each completed step (the constructor, a submission, a
  worker taking an item, a worker finishing one, and every other step), the flag
  \<open>work_complete\<close> is true exactly when the queue is empty and \<open>active_threads\<close>
  is 0.
\<close>

theorem work_complete_invariant:
  assumes "from_new num_thread device_id set_affinity es = Next s"
  shows "work_complete s = (work_queue s = [] \<and> active_threads s = 0)"
  using pool_inv_from_new [OF assms] by (simp add: pool_inv_def)

theorem work_complete_invariant_witness:
  "\<exists>s. from_new 1 0 False
          [Spawn, Resize, Init 0 Returns, Submit noop, Check 0, Take 0] = Next s \<and>
       work_queue s = [] \<and> active_threads s = 1 \<and> \<not> work_complete s"
proof -
  have "\<exists>s. from_new 1 0 False
          [Spawn, Resize, Init 0 Returns, Submit noop, Check 0, Take 0] = Next s \<and>
       work_queue s = [] \<and> active_threads s = 1"
    by (simp add: run_defs)
  then obtain s where h: "from_new 1 0 False
          [Spawn, Resize, Init 0 Returns, Submit noop, Check 0, Take 0] = Next s"
    and q: "work_queue s = []" and a: "active_threads s = 1" by (elim exE conjE)
  from work_complete_invariant [OF h] a have "\<not> work_complete s" by simp
  with h q a show ?thesis by (intro exI conjI)
qed

section \<open>Reporting errors from WaitForWork\<close>

text \<open>
  C2. On a pool whose work is complete and whose registry has one sequence per worker, an
  error-checked wait is the report of the specification: it surfaces at most one error,
  the front of the first non-empty sequence (every sequence before it is empty), and
  removes that one entry, so the number of queued errors drops by exactly one; it returns
  without an error exactly when nothing is queued. A wait without error checking returns
  the pool unchanged. Repeated error-checked waits by the owner take the queued errors
  away one per call, down to none.
\<close>

theorem WaitForWork_reports_one_error:
  assumes "work_complete s" and "length (tl_errors s) = length (threads s)"
  shows "WaitForWork True s = report s \<and>
         (\<forall>j<lowest_failed (tl_errors s). tl_errors s ! j = []) \<and>
         (lowest_failed (tl_errors s) < length (tl_errors s) \<longrightarrow>
            tl_errors s ! lowest_failed (tl_errors s) \<noteq> []) \<and>
         (\<forall>m s'. WaitForWork True s = Raised m s' \<longrightarrow> Suc (pending s') = pending s) \<and>
         (WaitForWork True s = Next s \<longleftrightarrow> pending s = 0) \<and>
         WaitForWork False s = Next s \<and>
         (owner s = Alive \<longrightarrow>
            (\<forall>n\<le>pending s. \<exists>s'. exec (replicate n (Wait True)) s = Next s' \<and>
                                   pending s' = pending s - n))"
proof -
  have w: "WaitForWork True s = report s" using assms by (rule WaitForWork_True_report)
  have a: "\<forall>j<lowest_failed (tl_errors s). tl_errors s ! j = []"
    by (simp add: lowest_failed_before)
  have b: "lowest_failed (tl_errors s) < length (tl_errors s) \<longrightarrow>
            tl_errors s ! lowest_failed (tl_errors s) \<noteq> []"
    by (simp add: lowest_failed_nonempty)
  have c: "\<forall>m s'. WaitForWork True s = Raised m s' \<longrightarrow> Suc (pending s') = pending s"
    using report_cases[of s] w by auto
  have d: "WaitForWork True s = Next s \<longleftrightarrow> pending s = 0"
    using report_cases[of s] w by auto
  have e: "WaitForWork False s = Next s" using assms by (simp add: WaitForWork_def)
  have f: "owner s = Alive \<longrightarrow>
            (\<forall>n\<le>pending s. \<exists>s'. exec (replicate n (Wait True)) s = Next s' \<and>
                                   pending s' = pending s - n)"
    using drain assms by blast
  from w a b c d e f show ?thesis by blast
qed

theorem WaitForWork_reports_one_error_witness:
  "\<exists>s. from_new 3 0 False
          [Spawn, Spawn, Spawn, Resize, Init 0 Returns, Init 1 (Throws_runtime_error ''no device''),
           Init 2 Throws_other, Submit boom, Check 1, Take 1, Run 1, Complete 1] = Next s \<and>
       tl_errors s = [[], [''no device'', ''boom''], [''Caught unknown exception'']] \<and>
       WaitForWork True s =
         Raised ''Error in thread 1: no device''
                (s\<lparr>tl_errors := [[], [''boom''], [''Caught unknown exception'']]\<rparr>) \<and>
       WaitForWork False s = Next s"
proof -
  have "\<exists>s. from_new 3 0 False
          [Spawn, Spawn, Spawn, Resize, Init 0 Returns, Init 1 (Throws_runtime_error ''no device''),
           Init 2 Throws_other, Submit boom, Check 1, Take 1, Run 1, Complete 1] = Next s \<and>
       tl_errors s = [[], [''no device'', ''boom''], [''Caught unknown exception'']] \<and>
       work_complete s \<and> length (threads s) = 3"
    by (simp add: run_defs numeral_3_eq_3)
  then obtain s where h: "from_new 3 0 False
          [Spawn, Spawn, Spawn, Resize, Init 0 Returns, Init 1 (Throws_runtime_error ''no device''),
           Init 2 Throws_other, Submit boom, Check 1, Take 1, Run 1, Complete 1] = Next s"
    and e: "tl_errors s = [[], [''no device'', ''boom''], [''Caught unknown exception'']]"
    and w: "work_complete s" and l: "length (threads s) = 3" by (elim exE conjE)
  have l': "length (tl_errors s) = length (threads s)" using e l by simp
  have r: "report s = Raised ''Error in thread 1: no device''
                (s\<lparr>tl_errors := [[], [''boom''], [''Caught unknown exception'']]\<rparr>)"
    using e by (simp add: report_def lowest_failed_def to_string.simps Let_def)
  from WaitForWork_reports_one_error [OF w l'] r
  have c: "WaitForWork True s =
         Raised ''Error in thread 1: no device''
                (s\<lparr>tl_errors := [[], [''boom''], [''Caught unknown exception'']]\<rparr>)"
    "WaitForWork False s = Next s" by simp_all
  from h e c show ?thesis by (intro exI conjI)
qed

section \<open>The destructor\<close>

text \<open>
  C3. Stated of every execution with its waits and notifications, at every pool
  \<open>s\<close> with blocked threads \<open>c\<close> that it reaches.
  \<^item> The completion wait. The destructor's first step is \<open>WaitForWork(false)\<close>,
    once the calls of \<open>DoWorkWithID\<close> have returned: with the queue empty and no
    worker active it goes on and changes nothing; otherwise it blocks. It is blocked
    only while the work is not complete, and the final critical section of the worker
    that completes the work wakes it (line 154). It raises nothing.
  \<^item> \<open>running\<close> is false only after that wait, in the join loop and afterwards.
    From the end of the wait on, the queue is empty, no worker is busy, the items popped
    are the items submitted, in their order, and the finished calls are the pops.
  \<^item> The stop. The step after the wait sets \<open>running\<close> to false and wakes every
    blocked worker (line 59); while \<open>running\<close> is false no worker is blocked.
  \<^item> The joins. A join is blocked until its worker has returned; when the destructor is
    done every worker has returned.
  \<^item> The calls. A worker that holds an item calls it with its own index: the step
    records exactly what \<open>work(thread_id)\<close> throws in the worker's sequence and
    appends the worker and the item to the finished calls. No other step touches an item
    in flight, so nothing interrupts it, and no other step adds a finished call. As long
    as no error-checked wait has removed an entry, the registry is therefore the record
    of what the initializers and the finished calls have thrown, worker by worker.
  \<^item> The destructor gets there. Every pool of an execution has a continuation, without
    further submissions, that ends with the pool destroyed, all workers returned and
    every submitted item popped and called. Every step other than a call of the client
    or a wake-up without cause lowers the measure of the steps still to come, and as
    long as the pool is not destroyed such a step can be taken: no thread stays blocked
    for want of a notification.
\<close>

theorem destructor_drains:
  assumes "cv_from_new num_thread device_id set_affinity es = Next (s, c)"
  shows "cv_step (Pool Destroy_wait) (s, c) =
           (if owner s = Alive \<and> unsignalled c = 0 \<and> \<not> dozing c
            then (if work_queue s = [] \<and> active_threads s = 0
                  then Next (s\<lparr>owner := Stopping\<rparr>, c)
                  else Next (s, c\<lparr>dozing := True\<rparr>))
            else Blocked) \<and>
         (dozing c \<longrightarrow> owner s = Alive \<and> \<not> (work_queue s = [] \<and> active_threads s = 0)) \<and>
         (\<forall>i s'. step (Complete i) s = Next s' \<and> work_queue s' = [] \<and> active_threads s' = 0 \<longrightarrow>
            cv_step (Pool (Complete i)) (s, c) = Next (s', c\<lparr>dozing := False\<rparr>)) \<and>
         (\<not> running s \<longleftrightarrow> (\<exists>k. owner s = Joining k) \<or> owner s = Destroyed) \<and>
         (owner s = Stopping \<or> \<not> running s \<longrightarrow>
            work_queue s = [] \<and> active_threads s = 0 \<and> (\<forall>t\<in>set (threads s). \<not> busy t) \<and>
            map snd (started s) = submitted s \<and> mset (finished s) = mset (started s)) \<and>
         cv_step (Pool Destroy_stop) (s, c) =
           (if owner s = Stopping
            then Next (s\<lparr>running := False, owner := Joining 0\<rparr>,
                       c\<lparr>asleep := map (\<lambda>a. False) (asleep c)\<rparr>)
            else Blocked) \<and>
         (\<not> running s \<longrightarrow> True \<notin> set (asleep c)) \<and>
         (\<forall>k. owner s = Joining k \<and> k < length (threads s) \<and> threads s ! k \<noteq> Exited \<longrightarrow>
            cv_step (Pool Join) (s, c) = Blocked) \<and>
         (owner s = Destroyed \<longrightarrow> (\<forall>t\<in>set (threads s). t = Exited)) \<and>
         (\<forall>i w. thread_at i s = Some (Executing w) \<longrightarrow>
            cv_step (Pool (Run i)) (s, c) =
              Next (s\<lparr>tl_errors := (tl_errors s)[i := tl_errors s ! i @ what (w (int i))],
                      finished := finished s @ [(i, w)],
                      threads := (threads s)[i := Completing]\<rparr>, c)) \<and>
         (\<forall>e s' c' i w. cv_after (cv_step e (s, c)) (s', c') \<and>
            thread_at i s = Some (Executing w) \<and> e \<noteq> Pool (Run i) \<longrightarrow>
            thread_at i s' = Some (Executing w)) \<and>
         (\<forall>e s' c'. cv_after (cv_step e (s, c)) (s', c') \<and> (\<forall>i. e \<noteq> Pool (Run i)) \<longrightarrow>
            finished s' = finished s) \<and>
         (Pool (Wait True) \<notin> set es \<longrightarrow>
            (\<forall>i. errs_at s i = cv_init_errors es i @ call_errors (finished s) i)) \<and>
         (\<exists>es' s' c'. cv_exec es' (s, c) = Next (s', c') \<and> owner s' = Destroyed \<and>
            submitted s' = submitted s \<and> map snd (started s') = submitted s \<and>
            mset (finished s') = mset (started s') \<and> (\<forall>t\<in>set (threads s'). t = Exited)) \<and>
         (\<forall>e x'. cv_after (cv_step e (s, c)) x' \<and> \<not> cv_client e \<longrightarrow>
            cv_remaining x' < cv_remaining (s, c)) \<and>
         (owner s \<noteq> Destroyed \<longrightarrow> (\<exists>e x'. \<not> cv_client e \<and> cv_step e (s, c) = Next x'))"
proof -
  have ci: "cv_inv (s, c)" using assms by (rule cv_inv_from_new)
  then have inv: "pool_inv s" and w: "waiters_inv s c" by (simp_all add: cv_inv_def)
  from cv_to_pool[OF assms] obtain es0 where
    f0: "from_new num_thread device_id set_affinity es0 = Next s" by blast
  have i1: "work_complete s = (work_queue s = [] \<and> active_threads s = 0)"
    and oi: "owner_inv s" using inv by (simp_all add: pool_inv_def)
  have k1: "length (asleep c) = length (threads s)"
    and k3: "\<not> running s \<longrightarrow> (\<forall>i<length (threads s). \<not> asleep c ! i)"
    and k5: "dozing c \<longrightarrow> owner s = Alive \<and> \<not> work_complete s"
    using w by (simp_all add: waiters_inv_def)
  have c1: "cv_step (Pool Destroy_wait) (s, c) =
           (if owner s = Alive \<and> unsignalled c = 0 \<and> \<not> dozing c
            then (if work_queue s = [] \<and> active_threads s = 0
                  then Next (s\<lparr>owner := Stopping\<rparr>, c)
                  else Next (s, c\<lparr>dozing := True\<rparr>))
            else Blocked)"
    using i1 by (simp add: destructor_wait_def WaitForWork_def lift_def)
  have c2: "dozing c \<longrightarrow> owner s = Alive \<and> \<not> (work_queue s = [] \<and> active_threads s = 0)"
    using k5 i1 by simp
  have c3: "\<forall>i s'. step (Complete i) s = Next s' \<and> work_queue s' = [] \<and> active_threads s' = 0 \<longrightarrow>
            cv_step (Pool (Complete i)) (s, c) = Next (s', c\<lparr>dozing := False\<rparr>)"
    by simp
  have c4: "\<not> running s \<longleftrightarrow> (\<exists>k. owner s = Joining k) \<or> owner s = Destroyed"
    using oi by (auto simp: owner_inv_def split: owner.splits)
  have c5: "owner s = Stopping \<or> \<not> running s \<longrightarrow>
            work_queue s = [] \<and> active_threads s = 0 \<and> (\<forall>t\<in>set (threads s). \<not> busy t) \<and>
            map snd (started s) = submitted s \<and> mset (finished s) = mset (started s)"
    using pool_inv_idle[OF inv] pool_inv_stopped[OF inv] by blast
  have c6: "cv_step (Pool Destroy_stop) (s, c) =
           (if owner s = Stopping
            then Next (s\<lparr>running := False, owner := Joining 0\<rparr>,
                       c\<lparr>asleep := map (\<lambda>a. False) (asleep c)\<rparr>)
            else Blocked)"
    by (simp add: destructor_stop_def lift_def)
  have c7: "\<not> running s \<longrightarrow> True \<notin> set (asleep c)"
    using k1 k3 by (auto simp: in_set_conv_nth)
  have c8: "\<forall>k. owner s = Joining k \<and> k < length (threads s) \<and> threads s ! k \<noteq> Exited \<longrightarrow>
            cv_step (Pool Join) (s, c) = Blocked"
    by (auto simp: destructor_join_def lift_def)
  have c9: "owner s = Destroyed \<longrightarrow> (\<forall>t\<in>set (threads s). t = Exited)"
    using oi by (auto simp: owner_inv_def in_set_conv_nth)
  have c10: "\<forall>i w. thread_at i s = Some (Executing w) \<longrightarrow>
            cv_step (Pool (Run i)) (s, c) =
              Next (s\<lparr>tl_errors := (tl_errors s)[i := tl_errors s ! i @ what (w (int i))],
                      finished := finished s @ [(i, w)],
                      threads := (threads s)[i := Completing]\<rparr>, c)"
    using work_failure_recorded[OF f0] by (simp add: lift_def)
  have c11: "\<forall>e s' c' i w. cv_after (cv_step e (s, c)) (s', c') \<and>
            thread_at i s = Some (Executing w) \<and> e \<noteq> Pool (Run i) \<longrightarrow>
            thread_at i s' = Some (Executing w)"
  proof (intro allI impI, elim conjE)
    fix e s' c' i x
    assume st: "cv_after (cv_step e (s, c)) (s', c')"
      and t: "thread_at i s = Some (Executing x)" and n: "e \<noteq> Pool (Run i)"
    from t have i: "i < length (threads s)" and ex: "threads s ! i = Executing x"
      by (auto simp: thread_at_def split: if_splits)
    have "threads s' ! i = Executing x" using cv_in_flight_kept[OF inv st i ex] n by simp
    moreover have "length (threads s') = length (threads s)"
      using cv_pool_step[OF st] threads_length_step by auto
    ultimately show "thread_at i s' = Some (Executing x)" using i by (simp add: thread_at_def)
  qed
  have c12: "\<forall>e s' c'. cv_after (cv_step e (s, c)) (s', c') \<and> (\<forall>i. e \<noteq> Pool (Run i)) \<longrightarrow>
            finished s' = finished s"
    using cv_finished_step by blast
  have c13: "Pool (Wait True) \<notin> set es \<longrightarrow>
            (\<forall>i. errs_at s i = cv_init_errors es i @ call_errors (finished s) i)"
    using cv_registry_of_calls[OF assms] by blast
  have c14: "\<exists>es' s' c'. cv_exec es' (s, c) = Next (s', c') \<and> owner s' = Destroyed \<and>
            submitted s' = submitted s \<and> map snd (started s') = submitted s \<and>
            mset (finished s') = mset (started s') \<and> (\<forall>t\<in>set (threads s'). t = Exited)"
  proof -
    from cv_destruction_possible[OF ci] obtain es' s' c' where
      e: "cv_exec es' (s, c) = Next (s', c')" and o: "owner s' = Destroyed"
      and u: "submitted s' = submitted s" by auto
    have "cv_inv (s', c')" using ci e by (rule cv_inv_exec)
    then have inv': "pool_inv s'" by (simp add: cv_inv_def)
    have wc: "work_complete s'" using inv' o by (auto simp: pool_inv_def owner_inv_def)
    have x: "\<forall>t\<in>set (threads s'). t = Exited"
      using inv' o by (auto simp: pool_inv_def owner_inv_def in_set_conv_nth)
    from pool_inv_idle[OF inv' wc] e o u x show ?thesis by auto
  qed
  have c15: "\<forall>e x'. cv_after (cv_step e (s, c)) x' \<and> \<not> cv_client e \<longrightarrow>
            cv_remaining x' < cv_remaining (s, c)"
    using cv_step_decreases[OF ci] by auto
  have c16: "owner s \<noteq> Destroyed \<longrightarrow> (\<exists>e x'. \<not> cv_client e \<and> cv_step e (s, c) = Next x')"
    using cv_step_possible[OF ci] by blast
  from c1 c2 c3 c4 c5 c6 c7 c8 c9 c10 c11 c12 c13 c14 c15 c16 show ?thesis by blast
qed

theorem destructor_drains_witness:
  "\<exists>s c t d.
       cv_from_new 2 0 False
          [Pool Spawn, Pool Spawn, Pool Resize, Pool (Init 0 Returns), Pool (Init 1 Returns),
           Pool (Check 0), Pool (Take 0), Pool (Check 1), Pool (Take 1),
           Pool (Submit picky), Notify_one 1, Pool (Submit boom), Notify_one 0] = Next (s, c) \<and>
       work_queue s = [picky, boom] \<and> asleep c = [False, False] \<and>
       cv_step (Pool Destroy_wait) (s, c) = Next (s, c\<lparr>dozing := True\<rparr>) \<and>
       cv_from_new 2 0 False
          [Pool Spawn, Pool Spawn, Pool Resize, Pool (Init 0 Returns), Pool (Init 1 Returns),
           Pool (Check 0), Pool (Take 0), Pool (Check 1), Pool (Take 1),
           Pool (Submit picky), Notify_one 1, Pool (Submit boom), Notify_one 0,
           Pool Destroy_wait, Pool (Take 1), Pool (Take 0), Pool (Run 1), Pool (Run 0),
           Pool (Complete 1), Pool (Complete 0), Pool (Check 0), Pool (Take 0),
           Pool Destroy_wait, Pool Destroy_stop, Pool (Take 0), Pool (Check 1),
           Pool Join, Pool Join, Pool Join] = Next (t, d) \<and>
       owner t = Destroyed \<and> threads t = [Exited, Exited] \<and> submitted t = [picky, boom] \<and>
       map snd (started t) = submitted t \<and> mset (finished t) = mset (started t) \<and>
       errs_at t 0 = [''boom''] \<and> errs_at t 1 = [''one''] \<and> True \<notin> set (asleep d)"
proof -
  have "\<exists>s c. cv_from_new 2 0 False
          [Pool Spawn, Pool Spawn, Pool Resize, Pool (Init 0 Returns), Pool (Init 1 Returns),
           Pool (Check 0), Pool (Take 0), Pool (Check 1), Pool (Take 1),
           Pool (Submit picky), Notify_one 1, Pool (Submit boom), Notify_one 0] = Next (s, c) \<and>
       work_queue s = [picky, boom] \<and> asleep c = [False, False] \<and> owner s = Alive \<and>
       unsignalled c = 0 \<and> \<not> dozing c \<and> active_threads s = 0"
    by (simp add: cv_run_defs)
  then obtain s c where hs: "cv_from_new 2 0 False
          [Pool Spawn, Pool Spawn, Pool Resize, Pool (Init 0 Returns), Pool (Init 1 Returns),
           Pool (Check 0), Pool (Take 0), Pool (Check 1), Pool (Take 1),
           Pool (Submit picky), Notify_one 1, Pool (Submit boom), Notify_one 0] = Next (s, c)"
    and q: "work_queue s = [picky, boom]" and a: "asleep c = [False, False]"
    and o: "owner s = Alive" and u: "unsignalled c = 0" and z: "\<not> dozing c"
    and n: "active_threads s = 0" by (elim exE conjE)
  have "\<exists>t d. cv_from_new 2 0 False
          [Pool Spawn, Pool Spawn, Pool Resize, Pool (Init 0 Returns), Pool (Init 1 Returns),
           Pool (Check 0), Pool (Take 0), Pool (Check 1), Pool (Take 1),
           Pool (Submit picky), Notify_one 1, Pool (Submit boom), Notify_one 0,
           Pool Destroy_wait, Pool (Take 1), Pool (Take 0), Pool (Run 1), Pool (Run 0),
           Pool (Complete 1), Pool (Complete 0), Pool (Check 0), Pool (Take 0),
           Pool Destroy_wait, Pool Destroy_stop, Pool (Take 0), Pool (Check 1),
           Pool Join, Pool Join, Pool Join] = Next (t, d) \<and>
       owner t = Destroyed \<and> threads t = [Exited, Exited] \<and> submitted t = [picky, boom] \<and>
       finished t = [(1, picky), (0, boom)] \<and> \<not> running t"
    by (simp add: cv_run_defs)
  then obtain t d where ht: "cv_from_new 2 0 False
          [Pool Spawn, Pool Spawn, Pool Resize, Pool (Init 0 Returns), Pool (Init 1 Returns),
           Pool (Check 0), Pool (Take 0), Pool (Check 1), Pool (Take 1),
           Pool (Submit picky), Notify_one 1, Pool (Submit boom), Notify_one 0,
           Pool Destroy_wait, Pool (Take 1), Pool (Take 0), Pool (Run 1), Pool (Run 0),
           Pool (Complete 1), Pool (Complete 0), Pool (Check 0), Pool (Take 0),
           Pool Destroy_wait, Pool Destroy_stop, Pool (Take 0), Pool (Check 1),
           Pool Join, Pool Join, Pool Join] = Next (t, d)"
    and e: "owner t = Destroyed" "threads t = [Exited, Exited]" "submitted t = [picky, boom]"
    and f: "finished t = [(1, picky), (0, boom)]" and r: "\<not> running t" by (elim exE conjE)
  note at_s = destructor_drains [OF hs]
  note at_t = destructor_drains [OF ht]
  from at_s [THEN conjunct1] q o u z
  have b: "cv_step (Pool Destroy_wait) (s, c) = Next (s, c\<lparr>dozing := True\<rparr>)" by simp
  from at_t [THEN conjunct2, THEN conjunct2, THEN conjunct2, THEN conjunct2, THEN conjunct1] r
  have g: "map snd (started t) = submitted t" "mset (finished t) = mset (started t)"
    by simp_all
  from at_t [THEN conjunct2, THEN conjunct2, THEN conjunct2, THEN conjunct2, THEN conjunct2, THEN conjunct2, THEN conjunct1] r
  have g': "True \<notin> set (asleep d)" by simp
  from at_t [THEN conjunct2, THEN conjunct2, THEN conjunct2, THEN conjunct2, THEN conjunct2, THEN conjunct2, THEN conjunct2, THEN conjunct2, THEN conjunct2, THEN conjunct2, THEN conjunct2, THEN conjunct2, THEN conjunct1]
  have "errs_at t 0 =
          cv_init_errors
          [Pool Spawn, Pool Spawn, Pool Resize, Pool (Init 0 Returns), Pool (Init 1 Returns),
           Pool (Check 0), Pool (Take 0), Pool (Check 1), Pool (Take 1),
           Pool (Submit picky), Notify_one 1, Pool (Submit boom), Notify_one 0,
           Pool Destroy_wait, Pool (Take 1), Pool (Take 0), Pool (Run 1), Pool (Run 0),
           Pool (Complete 1), Pool (Complete 0), Pool (Check 0), Pool (Take 0),
           Pool Destroy_wait, Pool Destroy_stop, Pool (Take 0), Pool (Check 1),
           Pool Join, Pool Join, Pool Join] 0 @ call_errors (finished t) 0"
    "errs_at t 1 =
          cv_init_errors
          [Pool Spawn, Pool Spawn, Pool Resize, Pool (Init 0 Returns), Pool (Init 1 Returns),
           Pool (Check 0), Pool (Take 0), Pool (Check 1), Pool (Take 1),
           Pool (Submit picky), Notify_one 1, Pool (Submit boom), Notify_one 0,
           Pool Destroy_wait, Pool (Take 1), Pool (Take 0), Pool (Run 1), Pool (Run 0),
           Pool (Complete 1), Pool (Complete 0), Pool (Check 0), Pool (Take 0),
           Pool Destroy_wait, Pool Destroy_stop, Pool (Take 0), Pool (Check 1),
           Pool Join, Pool Join, Pool Join] 1 @ call_errors (finished t) 1"
    by simp_all
  then have k: "errs_at t 0 = [''boom'']" "errs_at t 1 = [''one'']"
    using f by (simp_all add: cv_init_errors_def call_errors_def what_def picky_def boom_def)
  from hs q a b ht e g k g' show ?thesis by (intro exI conjI)
qed

section \<open>The work queue is first-in, first-out\<close>



section \<open>Construction with a count that is not positive\<close>

text \<open>
  C5. For every thread count less than or equal to 0 the constructor fails, and it fails
  before the loop that starts the workers: it yields no pool. A count of 0 fails the
  check \<open>num_thread > 0\<close> of line 43; a negative count is already refused as the size
  of \<open>threads_\<close>.
\<close>

theorem ThreadPool_rejects_nonpositive:
  "num_thread \<le> 0 \<Longrightarrow>
     ThreadPool num_thread device_id set_affinity =
       Inl (if num_thread < 0 then Bad_vector_size
            else Enforce_failed ''Thread pool must have non-zero size'')"
  by (simp add: ThreadPool_def)

theorem ThreadPool_rejects_nonpositive_witness:
  "(0::int) \<le> 0 \<and> (- 1::int) \<le> 0 \<and>
   ThreadPool 0 0 False = Inl (Enforce_failed ''Thread pool must have non-zero size'') \<and>
   ThreadPool (- 1) 0 False = Inl Bad_vector_size"
  using ThreadPool_rejects_nonpositive [of 0 0 False]
        ThreadPool_rejects_nonpositive [of "- 1" 0 False]
  by simp

section \<open>Failures before the registry is allocated\<close>

text \<open>
  C6. A failure of a work item or of the initializer is meant to be caught by the worker
  and appended to its own sequence, an unknown kind as a generic description. The
  handlers of lines 111 to 115 index \<open>tl_errors_\<close> with the worker's index, but the
  constructor sizes \<open>tl_errors_\<close> only after it has started the workers (line 50
  after line 47). In a pool of two, worker 0 started and failing in its initializer
  with an unknown exception before the constructor goes on: the push indexes an empty
  vector, and nothing is recorded. The same failure after the resize is recorded.
\<close>

theorem unknown_failure_before_resize:
  "from_new 2 0 False [Spawn, Init 0 Throws_other, Spawn, Resize] = Undefined \<and>
   (\<exists>s. from_new 2 0 False [Spawn, Spawn, Resize, Init 0 Throws_other] = Next s \<and>
        tl_errors s = [[''Caught unknown exception''], []])"
  by (simp add: from_new_def ThreadPool_def ThreadPool_spawn_def ThreadPool_resize_def resize_def ThreadMain_init_def
      thread_at_def push_error_def and_then_def goto_def numeral_2_eq_2)

section \<open>A worker exits only when the pool is stopped and drained\<close>

text \<open>
  C7. In every execution, a step that takes a worker to its exit happens only where
  \<open>running\<close> is false and the queue is empty. While \<open>running\<close> is true or the
  queue is non-empty, a worker at the loop condition goes on to the wait, a waiting
  worker with a non-empty queue pops the head and calls it, and a waiting worker with an
  empty queue stays blocked.
\<close>

theorem worker_exits_only_when_stopped:
  assumes "from_new num_thread device_id set_affinity es = Next s"
  shows "(\<forall>e s' i. after (step e s) s' \<and> i < length (threads s) \<and>
            threads s ! i \<noteq> Exited \<and> threads s' ! i = Exited \<longrightarrow>
            \<not> running s \<and> work_queue s = []) \<and>
         (running s \<or> work_queue s \<noteq> [] \<longrightarrow>
            (\<forall>i. thread_at i s = Some Loop_head \<longrightarrow> step (Check i) s = Next (goto i Waiting s)) \<and>
            (\<forall>i. thread_at i s = Some Waiting \<and> work_queue s \<noteq> [] \<longrightarrow>
               (\<exists>s'. step (Take i) s = Next s' \<and>
                     work_queue s = hd (work_queue s) # work_queue s' \<and>
                     thread_at i s' = Some (Executing (hd (work_queue s))))) \<and>
            (\<forall>i. thread_at i s = Some Waiting \<and> work_queue s = [] \<longrightarrow>
               step (Take i) s = Blocked))"
proof -
  have inv: "pool_inv s" using assms by (rule pool_inv_from_new)
  have q: "\<not> running s \<Longrightarrow> work_queue s = []"
    using pool_inv_idle(1)[OF inv] pool_inv_stopped[OF inv] by blast
  have a: "\<forall>e s' i. after (step e s) s' \<and> i < length (threads s) \<and>
            threads s ! i \<noteq> Exited \<and> threads s' ! i = Exited \<longrightarrow>
            \<not> running s \<and> work_queue s = []"
  proof (intro allI impI, elim conjE)
    fix e s' i
    assume st: "after (step e s) s'" and i: "i < length (threads s)"
      and n: "threads s ! i \<noteq> Exited" and x: "threads s' ! i = Exited"
    from st have "\<not> running s"
      using i n x by (cases rule: step_cases) (auto simp: nth_list_update split: if_splits)
    then show "\<not> running s \<and> work_queue s = []" using q by simp
  qed
  have r: "running s \<or> work_queue s \<noteq> [] \<Longrightarrow> running s" using q by blast
  have b: "running s \<or> work_queue s \<noteq> [] \<longrightarrow>
            (\<forall>i. thread_at i s = Some Loop_head \<longrightarrow> step (Check i) s = Next (goto i Waiting s)) \<and>
            (\<forall>i. thread_at i s = Some Waiting \<and> work_queue s \<noteq> [] \<longrightarrow>
               (\<exists>s'. step (Take i) s = Next s' \<and>
                     work_queue s = hd (work_queue s) # work_queue s' \<and>
                     thread_at i s' = Some (Executing (hd (work_queue s))))) \<and>
            (\<forall>i. thread_at i s = Some Waiting \<and> work_queue s = [] \<longrightarrow>
               step (Take i) s = Blocked)"
    using r by (auto simp: ThreadMain_check_def ThreadMain_take_def thread_at_def goto_def
        split: if_splits list.splits)
  from a b show ?thesis by blast
qed

theorem worker_exits_only_when_stopped_witness:
  "\<exists>s t. from_new 1 0 False
            [Spawn, Resize, Init 0 Returns, Submit noop, Check 0, Take 0, Run 0, Complete 0,
             Destroy_wait, Destroy_stop] = Next s \<and>
         step (Check 0) s = Next t \<and> threads s ! 0 = Loop_head \<and> threads t ! 0 = Exited \<and>
         \<not> running s \<and> work_queue s = []"
proof -
  have "\<exists>s t. from_new 1 0 False
            [Spawn, Resize, Init 0 Returns, Submit noop, Check 0, Take 0, Run 0, Complete 0,
             Destroy_wait, Destroy_stop] = Next s \<and>
         step (Check 0) s = Next t \<and> threads s ! 0 = Loop_head \<and> threads t ! 0 = Exited \<and>
         length (threads s) = 1"
    by (simp add: run_defs)
  then obtain s t where h: "from_new 1 0 False
            [Spawn, Resize, Init 0 Returns, Submit noop, Check 0, Take 0, Run 0, Complete 0,
             Destroy_wait, Destroy_stop] = Next s"
    and c: "step (Check 0) s = Next t" and a: "threads s ! 0 = Loop_head"
    and b: "threads t ! 0 = Exited" and l: "length (threads s) = 1" by (elim exE conjE)
  have "after (step (Check 0) s) t \<and> 0 < length (threads s) \<and>
        threads s ! 0 \<noteq> Exited \<and> threads t ! 0 = Exited"
    using c a b l by (simp add: after_def)
  with worker_exits_only_when_stopped [OF h]
  have d: "\<not> running s" "work_queue s = []" by blast+
  from h c a b d show ?thesis by (intro exI conjI)
qed

section \<open>One failure, reported once\<close>



section \<open>An initializer that fails during construction\<close>

text \<open>
  C9. The constructor is meant to give every worker an error sequence, so that a failing
  initializer is recorded like a failing item. It starts the workers at line 47 and
  sizes \<open>tl_errors_\<close> at line 50. In a pool of one, the worker started and its
  initializer failing with a \<open>std::runtime_error\<close> before the constructor reaches
  line 50: the handler of line 112 indexes an empty vector, and the failure is not
  recorded. With the resize first, the same failure is recorded in the worker's sequence.
\<close>

theorem initializer_failure_before_resize:
  "from_new 1 0 False [Spawn, Init 0 (Throws_runtime_error ''no device'')] = Undefined \<and>
   (\<exists>s. from_new 1 0 False [Spawn, Resize, Init 0 (Throws_runtime_error ''no device'')] = Next s \<and>
        tl_errors s = [[''no device'']])"
  by (simp add: from_new_def ThreadPool_def ThreadPool_spawn_def ThreadPool_resize_def resize_def ThreadMain_init_def
      thread_at_def push_error_def and_then_def goto_def)

section \<open>Waiting on a fresh pool\<close>

text \<open>
  C10. The constructor sets \<open>work_complete\<close> to true. On a constructed pool to which
  nothing has been submitted the flag is still true, so a wait without error checking
  returns the pool at once, and an error-checked wait is not blocked either: it is the
  report of the registry, which returns or throws. It can throw: a pool of one whose
  initializer failed after construction reports that failure.
\<close>

theorem fresh_pool_wait_returns:
  assumes "from_new num_thread device_id set_affinity es = Next s"
    and "submitted s = []" and "owner s = Alive"
  shows "work_complete s \<and>
         step (Wait False) s = Next s \<and>
         step (Wait True) s = report s \<and>
         (\<forall>s0. ThreadPool num_thread device_id set_affinity = Inr s0 \<longrightarrow> work_complete s0) \<and>
         (\<exists>t t'. from_new 1 0 False [Spawn, Resize, Init 0 (Throws_runtime_error ''no device'')]
                   = Next t \<and> submitted t = [] \<and> owner t = Alive \<and>
                 step (Wait True) t = Raised ''Error in thread 0: no device'' t')"
proof -
  have inv: "pool_inv s" using assms(1) by (rule pool_inv_from_new)
  have wc: "work_complete s" using inv assms(2) by (rule fresh_idle)
  have len: "length (tl_errors s) = length (threads s)"
    using inv assms(3) by (simp add: pool_inv_def owner_inv_def)
  have a: "step (Wait False) s = Next s" using wc assms(3) by (simp add: WaitForWork_def)
  have b: "step (Wait True) s = report s"
    using wc len assms(3) by (simp add: WaitForWork_True_report)
  have c: "\<forall>s0. ThreadPool num_thread device_id set_affinity = Inr s0 \<longrightarrow> work_complete s0"
    by (auto simp: ThreadPool_def split: if_splits)
  have d: "\<exists>t t'. from_new 1 0 False [Spawn, Resize, Init 0 (Throws_runtime_error ''no device'')]
                   = Next t \<and> submitted t = [] \<and> owner t = Alive \<and>
                 step (Wait True) t = Raised ''Error in thread 0: no device'' t'"
    by (simp add: from_new_def ThreadPool_def ThreadPool_spawn_def ThreadPool_resize_def resize_def ThreadMain_init_def
        thread_at_def push_error_def and_then_def goto_def WaitForWork_def
        WaitForWork_loop.simps to_string.simps)
  from wc a b c d show ?thesis by blast
qed

theorem fresh_pool_wait_returns_witness:
  "\<exists>s. from_new 3 0 True [Spawn, Spawn, Spawn, Resize, Init 2 Returns] = Next s \<and>
       submitted s = [] \<and> owner s = Alive \<and> work_complete s \<and>
       step (Wait False) s = Next s \<and> step (Wait True) s = Next s"
proof -
  have "\<exists>s. from_new 3 0 True [Spawn, Spawn, Spawn, Resize, Init 2 Returns] = Next s \<and>
       submitted s = [] \<and> owner s = Alive \<and> report s = Next s"
    by (simp add: run_defs report_def lowest_failed_def numeral_3_eq_3)
  then obtain s where h: "from_new 3 0 True [Spawn, Spawn, Spawn, Resize, Init 2 Returns] = Next s"
    and u: "submitted s = []" and o: "owner s = Alive" and r: "report s = Next s" by (elim exE conjE)
  from fresh_pool_wait_returns [OF h u o] r
  have c: "work_complete s" "step (Wait False) s = Next s" "step (Wait True) s = Next s"
    by simp_all
  from h u o c show ?thesis by (intro exI conjI)
qed

end
